theory Spec2Isabelle
  imports Main
begin

section \<open>Characters and C strings\<close>

text \<open>
  A C string is the run of characters up to the first NUL.  \<open>isspace\<close> and \<open>isdigit\<close>
  are those of the C locale; the source masks its argument with 255, which the 8-bit
  \<open>char\<close> already is.
\<close>

definition NUL :: char where
  "NUL = CHR 0x00"

definition isspace :: "char \<Rightarrow> bool" where
  "isspace c = (c = CHR '' '' \<or> c = CHR 0x09 \<or> c = CHR 0x0A \<or> c = CHR 0x0B \<or>
                c = CHR 0x0C \<or> c = CHR 0x0D)"

definition isdigit :: "char \<Rightarrow> bool" where
  "isdigit c = (c \<in> set ''0123456789'')"

definition tolower :: "char \<Rightarrow> char" where
  "tolower c =
    (case map_of (zip ''ABCDEFGHIJKLMNOPQRSTUVWXYZ'' ''abcdefghijklmnopqrstuvwxyz'') c of
       Some l \<Rightarrow> l
     | None \<Rightarrow> c)"

text \<open>\<open>strcasecmp(a, b) == 0\<close> for two strings without NUL.\<close>

definition strcasecmp_eq :: "string \<Rightarrow> string \<Rightarrow> bool" where
  "strcasecmp_eq a b = (map tolower a = map tolower b)"

text \<open>
  The line buffer \<open>char line[65536]\<close> is the list of the bytes \<open>fgets\<close> stored, the
  terminating NUL included; a \<open>char *\<close> into it is an index.  The bytes behind the
  terminator are left over from earlier lines (or uninitialised), so they are not part of
  the list.  \<open>peek\<close> is the read \<open>*p\<close> used by the scanning loops, which stop at a NUL.
\<close>

definition peek :: "string \<Rightarrow> nat \<Rightarrow> char" where
  "peek buf p = (if p < length buf then buf ! p else NUL)"

definition cstr :: "string \<Rightarrow> nat \<Rightarrow> string" where
  "cstr buf p = takeWhile (\<lambda>c. c \<noteq> NUL) (drop p buf)"

definition strlen :: "string \<Rightarrow> nat \<Rightarrow> nat" where
  "strlen buf p = length (cstr buf p)"

text \<open>\<open>while (P(*p)) p ++;\<close> for a condition that fails at NUL.\<close>

definition skip_while :: "(char \<Rightarrow> bool) \<Rightarrow> string \<Rightarrow> nat \<Rightarrow> nat" where
  "skip_while P buf p = p + length (takeWhile P (drop p buf))"

text \<open>\<open>strchr(p, c)\<close> for a character \<open>c\<close> other than NUL.\<close>

definition strchr :: "string \<Rightarrow> nat \<Rightarrow> char \<Rightarrow> nat option" where
  "strchr buf p c =
    (let q = skip_while (\<lambda>x. x \<noteq> NUL \<and> x \<noteq> c) buf p
     in if peek buf q = c then Some q else None)"

text \<open>\<open>!strncmp(p, lit, strlen(lit))\<close> and \<open>!strcmp(p, lit)\<close> for a literal without NUL.\<close>

definition strncmp_eq :: "string \<Rightarrow> nat \<Rightarrow> string \<Rightarrow> bool" where
  "strncmp_eq buf p lit = (take (length lit) (cstr buf p) = lit)"

definition strcmp_eq :: "string \<Rightarrow> nat \<Rightarrow> string \<Rightarrow> bool" where
  "strcmp_eq buf p lit = (cstr buf p = lit)"

text \<open>\<open>memmove(p, p + 1, strlen(p))\<close>: the rest of the string moves one byte left.\<close>

definition memmove_left :: "string \<Rightarrow> nat \<Rightarrow> string" where
  "memmove_left buf p =
    (let n = strlen buf p in take p buf @ take n (drop (p + 1) buf) @ drop (p + n) buf)"

section \<open>Data model of \<open>mmd.c\<close>\<close>

text \<open>
  The node types of \<open>mmd_type_t\<close>.  The header that declares the enumeration is not part of
  the sources; the constructors are the names \<open>mmd.c\<close> uses, in the order in which
  \<open>mmd_type_string\<close> lists them.
\<close>

datatype mmd_type_t =
    MMD_TYPE_NONE
  | MMD_TYPE_DOCUMENT
  | MMD_TYPE_METADATA
  | MMD_TYPE_BLOCK_QUOTE
  | MMD_TYPE_ORDERED_LIST
  | MMD_TYPE_UNORDERED_LIST
  | MMD_TYPE_LIST_ITEM
  | MMD_TYPE_TABLE
  | MMD_TYPE_TABLE_HEADER
  | MMD_TYPE_TABLE_BODY
  | MMD_TYPE_TABLE_ROW
  | MMD_TYPE_HEADING_1
  | MMD_TYPE_HEADING_2
  | MMD_TYPE_HEADING_3
  | MMD_TYPE_HEADING_4
  | MMD_TYPE_HEADING_5
  | MMD_TYPE_HEADING_6
  | MMD_TYPE_PARAGRAPH
  | MMD_TYPE_CODE_BLOCK
  | MMD_TYPE_THEMATIC_BREAK
  | MMD_TYPE_TABLE_HEADER_CELL
  | MMD_TYPE_TABLE_BODY_CELL_LEFT
  | MMD_TYPE_TABLE_BODY_CELL_CENTER
  | MMD_TYPE_TABLE_BODY_CELL_RIGHT
  | MMD_TYPE_NORMAL_TEXT
  | MMD_TYPE_EMPHASIZED_TEXT
  | MMD_TYPE_STRONG_TEXT
  | MMD_TYPE_STRUCK_TEXT
  | MMD_TYPE_LINKED_TEXT
  | MMD_TYPE_CODE_TEXT
  | MMD_TYPE_IMAGE
  | MMD_TYPE_HARD_BREAK
  | MMD_TYPE_SOFT_BREAK
  | MMD_TYPE_METADATA_TEXT

text \<open>
  \<open>struct _mmd_s\<close>.  A pointer to a node is an index into the heap (the list of all nodes
  allocated so far, in allocation order); \<open>NULL\<close> is \<open>None\<close>.  The \<open>int\<close> field
  \<open>whitespace\<close> only ever holds 0 or 1 and is a \<open>bool\<close>.  The fields \<open>type\<close> and
  \<open>text\<close> are called \<open>node_type\<close> and \<open>node_text\<close>.
\<close>

record mmd_t =
  node_type :: mmd_type_t
  whitespace :: bool
  node_text :: "string option"
  url :: "string option"
  parent :: "nat option"
  first_child :: "nat option"
  last_child :: "nat option"
  prev_sibling :: "nat option"
  next_sibling :: "nat option"

type_synonym heap = "mmd_t list"

text \<open>
  \<open>struct _mmd_ref_s\<close>.  \<open>pending\<close> is \<open>None\<close> for the \<open>NULL\<close> array; \<open>num_pending\<close> is
  the length of the array.  The fields \<open>name\<close> and \<open>url\<close> are called \<open>ref_name\<close> and
  \<open>ref_url\<close>.  The \<open>references\<close> array of \<open>struct _mmd_doc_s\<close> is a list of these
  (\<open>num_references\<close> is its length).
\<close>

record mmd_ref_t =
  ref_name :: string
  ref_url :: "string option"
  pending :: "nat list option"

definition num_pending :: "mmd_ref_t \<Rightarrow> nat" where
  "num_pending r = (case pending r of None \<Rightarrow> 0 | Some ps \<Rightarrow> length ps)"

definition pending_nodes :: "mmd_ref_t \<Rightarrow> nat list" where
  "pending_nodes r = (case pending r of None \<Rightarrow> [] | Some ps \<Rightarrow> ps)"

section \<open>Node/tree store\<close>

text \<open>Assignment through a node pointer: \<open>p->field = v\<close> is \<open>upd h p (field_update (\<lambda>_. v))\<close>.\<close>

definition upd :: "heap \<Rightarrow> nat \<Rightarrow> (mmd_t \<Rightarrow> mmd_t) \<Rightarrow> heap" where
  "upd h p f = h[p := f (h ! p)]"

text \<open>The node that \<open>calloc(1, sizeof(mmd_t))\<close> gives: every field zero.\<close>

definition zero_node :: mmd_t where
  "zero_node =
    \<lparr>node_type = MMD_TYPE_DOCUMENT, whitespace = False, node_text = None, url = None,
     parent = None, first_child = None, last_child = None, prev_sibling = None,
     next_sibling = None\<rparr>"

text \<open>
  \<open>mmd_add\<close>, for a \<open>calloc\<close> and \<open>strdup\<close> that succeed: the new node is the next free
  index.  The statements run in the source's order, each on the heap the previous one left.
\<close>

definition mmd_add ::
  "heap \<Rightarrow> nat option \<Rightarrow> mmd_type_t \<Rightarrow> bool \<Rightarrow> string option \<Rightarrow> string option \<Rightarrow> heap \<times> nat" where
  "mmd_add h par ty ws txt u =
    (let temp = length h;
         h0 = h @ [zero_node];
         h1 = (case par of
                 None \<Rightarrow> h0
               | Some p \<Rightarrow>
                   (let a = upd h0 temp (parent_update (\<lambda>_. Some p)) in
                    case last_child (a ! p) of
                      Some l \<Rightarrow>
                        (let b = upd a l (next_sibling_update (\<lambda>_. Some temp));
                             c = upd b temp (prev_sibling_update (\<lambda>_. last_child (b ! p)))
                         in upd c p (last_child_update (\<lambda>_. Some temp)))
                    | None \<Rightarrow>
                        (let b = upd a p (last_child_update (\<lambda>_. Some temp))
                         in upd b p (first_child_update (\<lambda>_. Some temp)))));
         h2 = upd h1 temp (node_type_update (\<lambda>_. ty));
         h3 = upd h2 temp (whitespace_update (\<lambda>_. ws));
         h4 = (case txt of None \<Rightarrow> h3 | Some t \<Rightarrow> upd h3 temp (node_text_update (\<lambda>_. Some t)));
         h5 = (case u of None \<Rightarrow> h4 | Some v \<Rightarrow> upd h4 temp (url_update (\<lambda>_. Some v)))
     in (h5, temp))"

text \<open>\<open>mmd_remove\<close>: unlink a node from its parent.\<close>

definition mmd_remove :: "heap \<Rightarrow> nat \<Rightarrow> heap" where
  "mmd_remove h n =
    (case parent (h ! n) of
       None \<Rightarrow> h
     | Some p \<Rightarrow>
        (let a = (case prev_sibling (h ! n) of
                    Some q \<Rightarrow> upd h q (next_sibling_update (\<lambda>_. next_sibling (h ! n)))
                  | None \<Rightarrow> upd h p (first_child_update (\<lambda>_. next_sibling (h ! n))));
             b = (case next_sibling (a ! n) of
                    Some q \<Rightarrow> upd a q (prev_sibling_update (\<lambda>_. prev_sibling (a ! n)))
                  | None \<Rightarrow> (case parent (a ! n) of
                               Some p' \<Rightarrow> upd a p' (last_child_update (\<lambda>_. prev_sibling (a ! n)))
                             | None \<Rightarrow> a));
             c = upd b n (parent_update (\<lambda>_. None));
             d = upd c n (prev_sibling_update (\<lambda>_. None))
         in upd d n (next_sibling_update (\<lambda>_. None))))"

section \<open>Reference table\<close>

text \<open>\<open>mmd_ref_find\<close>: the index of the first entry whose name matches, ignoring case.\<close>

fun mmd_ref_find :: "mmd_ref_t list \<Rightarrow> string \<Rightarrow> nat option" where
  "mmd_ref_find [] name = None"
| "mmd_ref_find (r # rs) name =
    (if strcasecmp_eq name (ref_name r) then Some 0 else map_option Suc (mmd_ref_find rs name))"

text \<open>
  The tail of \<open>mmd_ref_add\<close> (\<open>if (node) ...\<close>): give the node the entry's URL, or queue it.
\<close>

definition ref_link :: "mmd_ref_t list \<Rightarrow> heap \<Rightarrow> nat \<Rightarrow> nat option \<Rightarrow> mmd_ref_t list \<times> heap" where
  "ref_link refs h i node =
    (case node of
       None \<Rightarrow> (refs, h)
     | Some n \<Rightarrow>
        (case ref_url (refs ! i) of
           Some ru \<Rightarrow> (refs, upd h n (url_update (\<lambda>_. Some ru)))
         | None \<Rightarrow> (refs[i := (refs ! i)\<lparr>pending := Some (pending_nodes (refs ! i) @ [n])\<rparr>], h)))"

text \<open>
  \<open>mmd_ref_add\<close>, for a \<open>realloc\<close> and \<open>strdup\<close> that succeed.  It works on the
  \<open>references\<close> array of the document and on the heap of nodes.
\<close>

definition mmd_ref_add ::
  "mmd_ref_t list \<Rightarrow> heap \<Rightarrow> nat option \<Rightarrow> string \<Rightarrow> string option \<Rightarrow> mmd_ref_t list \<times> heap" where
  "mmd_ref_add refs h node name u =
    (case mmd_ref_find refs name of
       Some i \<Rightarrow>
        (if ref_url (refs ! i) = None \<and> u \<noteq> None then
           (let h1 = (case node of None \<Rightarrow> h | Some n \<Rightarrow> upd h n (url_update (\<lambda>_. u)));
                h2 = fold (\<lambda>p a. upd a p (url_update (\<lambda>_. u))) (pending_nodes (refs ! i)) h1
            in (refs[i := (refs ! i)\<lparr>ref_url := u, pending := None\<rparr>], h2))
         else ref_link refs h i node)
     | None \<Rightarrow>
        ref_link (refs @ [\<lparr>ref_name = name, ref_url = u, pending = None\<rparr>]) h (length refs) node)"

section \<open>Link syntax\<close>

text \<open>
  The first loop of \<open>mmd_parse_link\<close>: find the \<open>]\<close> that ends the link text, skipping
  double-quoted runs.  The result is where the loop stops or returns: at a \<open>]\<close> or at a NUL.
\<close>

function link_text_end :: "string \<Rightarrow> nat \<Rightarrow> nat" where
  "link_text_end buf p =
    (if p < length buf \<and> buf ! p \<noteq> NUL \<and> buf ! p \<noteq> CHR '']'' then
       (if buf ! p = CHR 0x22 then
          (let q = skip_while (\<lambda>c. c \<noteq> NUL \<and> c \<noteq> CHR 0x22) buf (p + 1)
           in if peek buf q = NUL then q else link_text_end buf (q + 1))
        else link_text_end buf (p + 1))
     else p)"
  by pat_completeness auto
termination
  by (relation "measure (\<lambda>(buf, p). length buf - p)") (auto simp: skip_while_def)

declare link_text_end.simps [simp del]

text \<open>
  The loops that read the URL in \<open>(...)\<close> and the reference name in \<open>[...]\<close>: white space
  is overwritten with NUL, double-quoted runs are skipped.  \<open>Returned\<close> is the
  \<open>return (lineptr)\<close> inside the loop (an unterminated quoted run), \<open>Stopped\<close> the end of
  the loop at the closing character or at a NUL.
\<close>

datatype scan = Returned string nat | Stopped string nat

function link_target :: "char \<Rightarrow> string \<Rightarrow> nat \<Rightarrow> scan" where
  "link_target close buf p =
    (if p < length buf \<and> buf ! p \<noteq> NUL \<and> buf ! p \<noteq> close then
       (if isspace (buf ! p) then link_target close (buf[p := NUL]) (p + 1)
        else if buf ! p = CHR 0x22 then
          (let q = skip_while (\<lambda>c. c \<noteq> NUL \<and> c \<noteq> CHR 0x22) buf (p + 1)
           in if peek buf q = NUL then Returned buf q else link_target close buf (q + 1))
        else link_target close buf (p + 1))
     else Stopped buf p)"
  by pat_completeness auto
termination
  by (relation "measure (\<lambda>(close, buf, p). length buf - p)") (auto simp: skip_while_def)

declare link_target.simps [simp del]

text \<open>
  What \<open>mmd_parse_link\<close> hands back: the returned \<open>lineptr\<close>, the three output
  pointers, and the line buffer, reference table and heap as it left them.
\<close>

record link_result =
  lk_ptr :: nat
  lk_text :: "nat option"
  lk_url :: "nat option"
  lk_refname :: "nat option"
  lk_line :: string
  lk_refs :: "mmd_ref_t list"
  lk_heap :: heap

definition mmd_parse_link :: "mmd_ref_t list \<Rightarrow> heap \<Rightarrow> string \<Rightarrow> nat \<Rightarrow> link_result" where
  "mmd_parse_link refs h buf lineptr =
    (let p0 = lineptr + 1;
         p1 = link_text_end buf p0
     in if peek buf p1 = NUL then
          \<lparr>lk_ptr = p1, lk_text = Some p0, lk_url = None, lk_refname = None,
           lk_line = buf, lk_refs = refs, lk_heap = h\<rparr>
        else
          (let buf1 = buf[p1 := NUL];
               p2 = skip_while isspace buf1 (p1 + 1)
           in if peek buf1 p2 = CHR ''('' then
                (case link_target (CHR '')'') buf1 (p2 + 1) of
                   Returned b q \<Rightarrow>
                     \<lparr>lk_ptr = q, lk_text = Some p0, lk_url = Some (p2 + 1), lk_refname = None,
                      lk_line = b, lk_refs = refs, lk_heap = h\<rparr>
                 | Stopped b q \<Rightarrow>
                     \<lparr>lk_ptr = q + 1, lk_text = Some p0, lk_url = Some (p2 + 1), lk_refname = None,
                      lk_line = b[q := NUL], lk_refs = refs, lk_heap = h\<rparr>)
              else if peek buf1 p2 = CHR ''['' then
                (case link_target (CHR '']'') buf1 (p2 + 1) of
                   Returned b q \<Rightarrow>
                     \<lparr>lk_ptr = q, lk_text = Some p0, lk_url = None, lk_refname = Some (p2 + 1),
                      lk_line = b, lk_refs = refs, lk_heap = h\<rparr>
                 | Stopped b q \<Rightarrow>
                     (let b' = b[q := NUL]
                      in \<lparr>lk_ptr = q + 1, lk_text = Some p0, lk_url = None,
                          lk_refname = (if peek b' (p2 + 1) = NUL then Some p0 else Some (p2 + 1)),
                          lk_line = b', lk_refs = refs, lk_heap = h\<rparr>))
              else if peek buf1 p2 = CHR '':'' then
                (let p3 = skip_while (\<lambda>c. c \<noteq> NUL \<and> isspace c) buf1 (p2 + 1);
                     p4 = skip_while (\<lambda>c. c \<noteq> NUL \<and> \<not> isspace c) buf1 p3;
                     buf2 = buf1[p4 := NUL];
                     (refs', h') = mmd_ref_add refs h None (cstr buf2 p0) (Some (cstr buf2 p3))
                 in \<lparr>lk_ptr = p4, lk_text = None, lk_url = None, lk_refname = None,
                     lk_line = buf2, lk_refs = refs', lk_heap = h'\<rparr>)
              else
                \<lparr>lk_ptr = p2, lk_text = Some p0, lk_url = None, lk_refname = None,
                 lk_line = buf1, lk_refs = refs, lk_heap = h\<rparr>))"

section \<open>Inline tokenizer\<close>

text \<open>
  The parser is modelled for runs in which \<open>calloc\<close>, \<open>realloc\<close> and \<open>strdup\<close> succeed.
  Its ways to leave the model are errors: a dereference of \<open>NULL\<close>, a read of the line
  buffer behind the terminator that \<open>fgets\<close> stored, and a walk up the parents on a heap
  whose parents do not precede their children (which \<open>mmd_add\<close> never builds).
\<close>

datatype error = NullDeref | StaleRead | NotATree

text \<open>
  The variables of \<open>mmd_parse_inline\<close>: the document's reference table, the heap, the line
  buffer, and the locals \<open>lineptr\<close>, \<open>text\<close>, \<open>type\<close> and \<open>whitespace\<close>.
\<close>

record pi_state =
  pi_refs :: "mmd_ref_t list"
  pi_heap :: heap
  pi_line :: string
  pi_lineptr :: nat
  pi_text :: "nat option"
  pi_type :: mmd_type_t
  pi_whitespace :: bool

text \<open>\<open>mmd_add(parent, type, whitespace, text, NULL)\<close> for the pending text run at \<open>t\<close>.\<close>

definition add_run :: "nat \<Rightarrow> pi_state \<Rightarrow> nat \<Rightarrow> heap" where
  "add_run par s t =
    fst (mmd_add (pi_heap s) (Some par) (pi_type s) (pi_whitespace s) (Some (cstr (pi_line s) t)) None)"

text \<open>
  \<open>if (text) { mmd_add(...); text = NULL; whitespace = 0; }\<close> as the image, link and autolink
  branches have it: the run is not cut at \<open>lineptr\<close>.
\<close>

definition flush_text :: "nat \<Rightarrow> pi_state \<Rightarrow> pi_state" where
  "flush_text par s =
    (case pi_text s of
       None \<Rightarrow> s
     | Some t \<Rightarrow> s\<lparr>pi_heap := add_run par s t, pi_text := None, pi_whitespace := False\<rparr>)"

text \<open>
  The same with the run cut at \<open>lineptr\<close> (\<open>*lineptr = '\0'\<close>) before the node is added;
  \<open>restore\<close> is the character written back afterwards, if any.
\<close>

definition flush_cut :: "nat \<Rightarrow> char option \<Rightarrow> pi_state \<Rightarrow> pi_state" where
  "flush_cut par restore s =
    (case pi_text s of
       None \<Rightarrow> s
     | Some t \<Rightarrow>
        (let s1 = s\<lparr>pi_line := (pi_line s)[pi_lineptr s := NUL]\<rparr>;
             s2 = s1\<lparr>pi_heap := add_run par s1 t\<rparr>;
             s3 = (case restore of
                     None \<Rightarrow> s2
                   | Some c \<Rightarrow> s2\<lparr>pi_line := (pi_line s2)[pi_lineptr s := c]\<rparr>)
         in s3\<lparr>pi_text := None, pi_whitespace := False\<rparr>))"

text \<open>
  The end of the image and link branches: \<open>if (!*lineptr) return; text = url = NULL;
  whitespace = 0; lineptr --;\<close>.  The pointer \<open>mmd_parse_link\<close> returned may stand one
  behind the terminator (after an unclosed \<open>(\<close> or \<open>[\<close>).
\<close>

datatype step = Return "error + mmd_ref_t list \<times> heap \<times> string" | Continue pi_state

definition after_link :: "pi_state \<Rightarrow> nat \<Rightarrow> step" where
  "after_link s q =
    (if length (pi_line s) \<le> q then Return (Inl StaleRead)
     else if pi_line s ! q = NUL then Return (Inr (pi_refs s, pi_heap s, pi_line s))
     else Continue (s\<lparr>pi_text := None, pi_whitespace := False, pi_lineptr := q - 1\<rparr>))"

text \<open>
  The branches of the body of the \<open>for\<close> loop of \<open>mmd_parse_inline\<close>, at a character
  \<open>*lineptr\<close> that is not NUL, in the order of the \<open>if\<close> chain.  First white space
  outside a code span: the pending run ends, and two white-space characters before the
  terminator give a hard break.
\<close>

definition step_space :: "nat \<Rightarrow> pi_state \<Rightarrow> step" where
  "step_space par s =
    (let p = pi_lineptr s;
         s1 = (case pi_text s of
                 None \<Rightarrow> s
               | Some t \<Rightarrow>
                   (let a = s\<lparr>pi_line := (pi_line s)[p := NUL]\<rparr>
                    in a\<lparr>pi_heap := add_run par a t, pi_text := None\<rparr>));
         s2 = s1\<lparr>pi_whitespace := True\<rparr>
     in if isspace (peek (pi_line s2) (p + 1)) \<and> peek (pi_line s2) (p + 2) = NUL then
          Continue (s2\<lparr>pi_heap :=
            fst (mmd_add (pi_heap s2) (Some par) MMD_TYPE_HARD_BREAK False None None)\<rparr>)
        else Continue s2)"

text \<open>\<open>![\<close>: an image.\<close>

definition step_image :: "nat \<Rightarrow> pi_state \<Rightarrow> step" where
  "step_image par s =
    (let p = pi_lineptr s;
         s1 = flush_text par s;
         lk = mmd_parse_link (pi_refs s1) (pi_heap s1) (pi_line s1) (p + 1);
         s2 = s1\<lparr>pi_refs := lk_refs lk, pi_heap := lk_heap lk, pi_line := lk_line lk,
                 pi_text := lk_text lk\<rparr>;
         s3 = (if lk_url lk \<noteq> None \<or> lk_refname lk \<noteq> None then
                 (let (h, node) = mmd_add (pi_heap s2) (Some par) MMD_TYPE_IMAGE (pi_whitespace s2)
                                    (map_option (cstr (pi_line s2)) (lk_text lk))
                                    (map_option (cstr (pi_line s2)) (lk_url lk))
                  in case lk_refname lk of
                       None \<Rightarrow> s2\<lparr>pi_heap := h\<rparr>
                     | Some r \<Rightarrow>
                         (let (refs', h') =
                                mmd_ref_add (pi_refs s2) h (Some node) (cstr (pi_line s2) r) None
                          in s2\<lparr>pi_refs := refs', pi_heap := h'\<rparr>))
               else s2)
     in after_link s3 (lk_ptr lk))"

text \<open>\<open>[\<close>: a link, or a code span when the link text starts with a backtick.\<close>

definition step_link :: "nat \<Rightarrow> pi_state \<Rightarrow> step" where
  "step_link par s =
    (let p = pi_lineptr s;
         s1 = flush_text par s;
         lk = mmd_parse_link (pi_refs s1) (pi_heap s1) (pi_line s1) p;
         s2 = s1\<lparr>pi_refs := lk_refs lk, pi_heap := lk_heap lk, pi_line := lk_line lk,
                 pi_text := lk_text lk\<rparr>;
         (s3, node) =
           (case lk_text lk of
              None \<Rightarrow> (s2, None)
            | Some t \<Rightarrow>
                if peek (pi_line s2) t = CHR 0x60 then
                  (let e = t + strlen (pi_line s2) t - 1;
                       t' = t + 1;
                       b = (if t' < e \<and> peek (pi_line s2) e = CHR 0x60 then (pi_line s2)[e := NUL]
                            else pi_line s2);
                       (h, n) = mmd_add (pi_heap s2) (Some par) MMD_TYPE_CODE_TEXT (pi_whitespace s2)
                                  (Some (cstr b t')) (map_option (cstr b) (lk_url lk))
                   in (s2\<lparr>pi_line := b, pi_heap := h, pi_text := Some t'\<rparr>, Some n))
                else
                  (let (h, n) = mmd_add (pi_heap s2) (Some par) MMD_TYPE_LINKED_TEXT (pi_whitespace s2)
                                  (Some (cstr (pi_line s2) t))
                                  (map_option (cstr (pi_line s2)) (lk_url lk))
                   in (s2\<lparr>pi_heap := h\<rparr>, Some n)));
         s4 = (case (lk_refname lk, node) of
                 (Some r, Some n) \<Rightarrow>
                   (let (refs', h') =
                          mmd_ref_add (pi_refs s3) (pi_heap s3) (Some n) (cstr (pi_line s3) r) None
                    in s3\<lparr>pi_refs := refs', pi_heap := h'\<rparr>)
               | _ \<Rightarrow> s3)
     in after_link s4 (lk_ptr lk))"

text \<open>\<open><...>\<close> with the \<open>>\<close> at \<open>q\<close>: an autolink.\<close>

definition step_autolink :: "nat \<Rightarrow> pi_state \<Rightarrow> nat \<Rightarrow> step" where
  "step_autolink par s q =
    (let p = pi_lineptr s;
         s1 = flush_text par s;
         u = p + 1;
         b = (pi_line s1)[q := NUL];
         h = fst (mmd_add (pi_heap s1) (Some par) MMD_TYPE_LINKED_TEXT (pi_whitespace s1)
                    (Some (cstr b u)) (Some (cstr b u)))
     in Continue (s1\<lparr>pi_line := b, pi_heap := h, pi_text := None, pi_whitespace := False,
                      pi_lineptr := q\<rparr>))"

text \<open>\<open>*\<close> or \<open>_\<close>: emphasis opens, strong emphasis opens, or the open span closes.\<close>

definition step_delim :: "nat \<Rightarrow> pi_state \<Rightarrow> step" where
  "step_delim par s =
    (let p = pi_lineptr s;
         delim = pi_line s ! p;
         s1 = flush_cut par (Some delim) s
     in if pi_type s1 = MMD_TYPE_NORMAL_TEXT then
          (let s2 = (if peek (pi_line s1) (p + 1) = delim \<and> \<not> isspace (peek (pi_line s1) (p + 2)) then
                       s1\<lparr>pi_type := MMD_TYPE_STRONG_TEXT, pi_lineptr := p + 1\<rparr>
                     else if \<not> isspace (peek (pi_line s1) (p + 1)) then
                       s1\<lparr>pi_type := MMD_TYPE_EMPHASIZED_TEXT\<rparr>
                     else s1)
           in Continue (s2\<lparr>pi_text := Some (pi_lineptr s2 + 1)\<rparr>))
        else
          (let s2 = (if peek (pi_line s1) (p + 1) = delim then s1\<lparr>pi_lineptr := p + 1\<rparr> else s1)
           in Continue (s2\<lparr>pi_type := MMD_TYPE_NORMAL_TEXT\<rparr>)))"

text \<open>\<open>~~\<close>: strikethrough opens or the open span closes.\<close>

definition step_tilde :: "nat \<Rightarrow> pi_state \<Rightarrow> step" where
  "step_tilde par s =
    (let p = pi_lineptr s;
         s1 = flush_cut par (Some (CHR ''~'')) s
     in if \<not> isspace (peek (pi_line s1) (p + 2)) \<and> pi_type s1 = MMD_TYPE_NORMAL_TEXT then
          Continue (s1\<lparr>pi_type := MMD_TYPE_STRUCK_TEXT, pi_text := Some (p + 2)\<rparr>)
        else
          Continue (s1\<lparr>pi_lineptr := p + 1, pi_type := MMD_TYPE_NORMAL_TEXT\<rparr>))"

text \<open>A backtick: a code span opens or closes.\<close>

definition step_backtick :: "nat \<Rightarrow> pi_state \<Rightarrow> step" where
  "step_backtick par s =
    (let p = pi_lineptr s;
         s1 = flush_cut par None s
     in if pi_type s1 = MMD_TYPE_CODE_TEXT then Continue (s1\<lparr>pi_type := MMD_TYPE_NORMAL_TEXT\<rparr>)
        else Continue (s1\<lparr>pi_type := MMD_TYPE_CODE_TEXT, pi_text := Some (p + 1)\<rparr>))"

text \<open>Any other character starts or extends the text run; a backslash escapes the next one.\<close>

definition step_plain :: "pi_state \<Rightarrow> step" where
  "step_plain s =
    (let p = pi_lineptr s; c = pi_line s ! p in
     if pi_text s = None then
       (let s1 = (if c = CHR 0x5C \<and> peek (pi_line s) (p + 1) \<noteq> NUL then s\<lparr>pi_lineptr := p + 1\<rparr>
                  else s)
        in Continue (s1\<lparr>pi_text := Some (pi_lineptr s1)\<rparr>))
     else if c = CHR 0x5C \<and> peek (pi_line s) (p + 1) \<noteq> NUL then
       Continue (s\<lparr>pi_line := memmove_left (pi_line s) p\<rparr>)
     else Continue s)"

text \<open>The \<open>if\<close> chain of the loop body.\<close>

definition inline_step :: "nat \<Rightarrow> pi_state \<Rightarrow> step" where
  "inline_step par s =
    (let p = pi_lineptr s; c = pi_line s ! p in
     if isspace c \<and> pi_type s \<noteq> MMD_TYPE_CODE_TEXT then step_space par s
     else if c = CHR ''!'' \<and> peek (pi_line s) (p + 1) = CHR ''['' \<and> pi_type s \<noteq> MMD_TYPE_CODE_TEXT then
       step_image par s
     else if c = CHR ''['' \<and> pi_type s \<noteq> MMD_TYPE_CODE_TEXT then step_link par s
     else if c = CHR ''<'' \<and> pi_type s \<noteq> MMD_TYPE_CODE_TEXT
             \<and> strchr (pi_line s) (p + 1) (CHR ''>'') \<noteq> None then
       step_autolink par s (the (strchr (pi_line s) (p + 1) (CHR ''>'')))
     else if (c = CHR ''*'' \<or> c = CHR ''_'') \<and> pi_type s \<noteq> MMD_TYPE_CODE_TEXT then step_delim par s
     else if c = CHR ''~'' \<and> peek (pi_line s) (p + 1) = CHR ''~'' \<and> pi_type s \<noteq> MMD_TYPE_CODE_TEXT then
       step_tilde par s
     else if c = CHR 0x60 then step_backtick par s
     else step_plain s)"

text \<open>Every pass leaves \<open>lineptr\<close> where it was or further on, in a buffer that is no longer.\<close>

lemma skip_while_lt: "a < b \<Longrightarrow> a < skip_while P buf b"
  by (simp add: skip_while_def)

lemma link_text_end_ge: "p \<le> link_text_end buf p"
proof (induction buf p rule: link_text_end.induct)
  case (1 buf p)
  show ?case
    apply (subst link_text_end.simps)
    using 1 skip_while_lt[of p "Suc p" "(\<lambda>c. c \<noteq> NUL \<and> c \<noteq> CHR 0x22)" buf]
    by (auto simp: Let_def split: if_splits)
qed

lemma link_target_Returned:
  "link_target cl buf p = Returned b q \<Longrightarrow> p \<le> q \<and> length b = length buf"
proof (induction cl buf p rule: link_target.induct)
  case (1 cl buf p)
  from "1.prems" show ?case
    apply (subst (asm) link_target.simps)
    using "1.IH" skip_while_lt[of p "Suc p" "(\<lambda>c. c \<noteq> NUL \<and> c \<noteq> CHR 0x22)" buf]
    by (auto simp: Let_def split: if_splits)
qed

lemma link_target_Stopped:
  "link_target cl buf p = Stopped b q \<Longrightarrow> p \<le> q \<and> length b = length buf"
proof (induction cl buf p rule: link_target.induct)
  case (1 cl buf p)
  from "1.prems" show ?case
    apply (subst (asm) link_target.simps)
    using "1.IH" skip_while_lt[of p "Suc p" "(\<lambda>c. c \<noteq> NUL \<and> c \<noteq> CHR 0x22)" buf]
    by (auto simp: Let_def split: if_splits)
qed

lemma mmd_parse_link_progress:
  "lineptr < lk_ptr (mmd_parse_link refs h buf lineptr) \<and>
   length (lk_line (mmd_parse_link refs h buf lineptr)) = length buf"
proof -
  define p1 where "p1 = link_text_end buf (Suc lineptr)"
  define p2 where "p2 = skip_while isspace (buf[p1 := NUL]) (Suc p1)"
  have a: "lineptr < p1"
    unfolding p1_def using link_text_end_ge[of "Suc lineptr" buf] by simp
  have b: "p1 < p2"
    unfolding p2_def by (simp add: skip_while_lt)
  show ?thesis
    using a b
    by (auto simp: mmd_parse_link_def Let_def skip_while_lt less_SucI p1_def[symmetric] p2_def[symmetric]
        split: scan.splits prod.splits
        dest!: link_target_Returned link_target_Stopped)
qed

lemma flush_text_keeps [simp]:
  "pi_lineptr (flush_text par s) = pi_lineptr s"
  "pi_line (flush_text par s) = pi_line s"
  "pi_refs (flush_text par s) = pi_refs s"
  "pi_type (flush_text par s) = pi_type s"
  by (auto simp: flush_text_def split: option.splits)

lemma flush_cut_keeps [simp]:
  "pi_lineptr (flush_cut par r s) = pi_lineptr s"
  "length (pi_line (flush_cut par r s)) = length (pi_line s)"
  "pi_refs (flush_cut par r s) = pi_refs s"
  "pi_type (flush_cut par r s) = pi_type s"
  by (auto simp: flush_cut_def Let_def split: option.splits)

lemma after_link_Continue:
  "after_link s q = Continue s' \<Longrightarrow> pi_lineptr s' = q - 1 \<and> pi_line s' = pi_line s"
  by (auto simp: after_link_def split: if_splits)

lemma strchr_Some: "strchr buf p c = Some q \<Longrightarrow> p \<le> q"
  by (auto simp: strchr_def Let_def skip_while_def split: if_splits)

lemma length_memmove_left: "length (memmove_left buf p) \<le> length buf"
  by (auto simp: memmove_left_def Let_def)

lemma step_space_progress:
  "step_space par s = Continue s' \<Longrightarrow>
     pi_lineptr s \<le> pi_lineptr s' \<and> length (pi_line s') \<le> length (pi_line s)"
  by (auto simp: step_space_def Let_def split: if_splits option.splits)

lemma step_image_progress:
  assumes "step_image par s = Continue s'"
  shows "pi_lineptr s \<le> pi_lineptr s' \<and> length (pi_line s') \<le> length (pi_line s)"
proof -
  define lk where
    "lk = mmd_parse_link (pi_refs s) (pi_heap (flush_text par s)) (pi_line s) (Suc (pi_lineptr s))"
  have a: "Suc (pi_lineptr s) < lk_ptr lk" "length (lk_line lk) = length (pi_line s)"
    unfolding lk_def using mmd_parse_link_progress by blast+
  from assms obtain s3 where b: "after_link s3 (lk_ptr lk) = Continue s'" "pi_line s3 = lk_line lk"
    by (auto simp: step_image_def Let_def lk_def[symmetric] split: if_splits option.splits prod.splits)
  with a show ?thesis
    by (auto dest!: after_link_Continue)
qed

lemma step_link_progress:
  assumes "step_link par s = Continue s'"
  shows "pi_lineptr s \<le> pi_lineptr s' \<and> length (pi_line s') \<le> length (pi_line s)"
proof -
  define lk where
    "lk = mmd_parse_link (pi_refs s) (pi_heap (flush_text par s)) (pi_line s) (pi_lineptr s)"
  have a: "pi_lineptr s < lk_ptr lk" "length (lk_line lk) = length (pi_line s)"
    unfolding lk_def using mmd_parse_link_progress by blast+
  from assms obtain s4 where b: "after_link s4 (lk_ptr lk) = Continue s'"
      "length (pi_line s4) = length (lk_line lk)"
    by (auto simp: step_link_def Let_def lk_def[symmetric] split: if_splits option.splits prod.splits)
  with a show ?thesis
    by (auto dest!: after_link_Continue)
qed

lemma step_autolink_progress:
  "step_autolink par s q = Continue s' \<Longrightarrow> pi_lineptr s \<le> q \<Longrightarrow>
     pi_lineptr s \<le> pi_lineptr s' \<and> length (pi_line s') \<le> length (pi_line s)"
  by (auto simp: step_autolink_def Let_def)

lemma step_delim_progress:
  "step_delim par s = Continue s' \<Longrightarrow>
     pi_lineptr s \<le> pi_lineptr s' \<and> length (pi_line s') \<le> length (pi_line s)"
  by (auto simp: step_delim_def Let_def split: if_splits)

lemma step_tilde_progress:
  "step_tilde par s = Continue s' \<Longrightarrow>
     pi_lineptr s \<le> pi_lineptr s' \<and> length (pi_line s') \<le> length (pi_line s)"
  by (auto simp: step_tilde_def Let_def split: if_splits)

lemma step_backtick_progress:
  "step_backtick par s = Continue s' \<Longrightarrow>
     pi_lineptr s \<le> pi_lineptr s' \<and> length (pi_line s') \<le> length (pi_line s)"
  by (auto simp: step_backtick_def Let_def split: if_splits)

lemma step_plain_progress:
  "step_plain s = Continue s' \<Longrightarrow>
     pi_lineptr s \<le> pi_lineptr s' \<and> length (pi_line s') \<le> length (pi_line s)"
  by (auto simp: step_plain_def Let_def length_memmove_left split: if_splits)

lemma inline_step_progress:
  assumes "inline_step par s = Continue s'"
  shows "pi_lineptr s \<le> pi_lineptr s' \<and> length (pi_line s') \<le> length (pi_line s)"
proof -
  have "strchr (pi_line s) (Suc (pi_lineptr s)) (CHR ''>'') \<noteq> None \<Longrightarrow>
        pi_lineptr s \<le> the (strchr (pi_line s) (Suc (pi_lineptr s)) (CHR ''>''))"
    using strchr_Some[of "pi_line s" "Suc (pi_lineptr s)" "CHR ''>''"] by auto
  with assms show ?thesis
    unfolding inline_step_def Let_def
    by (simp split: if_splits)
       (blast dest: step_space_progress step_image_progress step_link_progress
          step_autolink_progress step_delim_progress step_tilde_progress step_backtick_progress
          step_plain_progress)+
qed

text \<open>
  The \<open>for\<close> loop of \<open>mmd_parse_inline\<close> and the flush of the last run behind it.  The result
  is the reference table, the heap and the line buffer as the call leaves them.
\<close>

function inline_loop :: "nat \<Rightarrow> pi_state \<Rightarrow> error + mmd_ref_t list \<times> heap \<times> string" where
  "inline_loop par s =
    (if length (pi_line s) \<le> pi_lineptr s then Inl StaleRead
     else if pi_line s ! pi_lineptr s = NUL then
       Inr (pi_refs s, (case pi_text s of None \<Rightarrow> pi_heap s | Some t \<Rightarrow> add_run par s t), pi_line s)
     else
       (case inline_step par s of
          Return r \<Rightarrow> r
        | Continue s' \<Rightarrow> inline_loop par (s'\<lparr>pi_lineptr := pi_lineptr s' + 1\<rparr>)))"
  by pat_completeness auto
termination
  by (relation "measure (\<lambda>(par, s). length (pi_line s) - pi_lineptr s)")
     (auto dest!: inline_step_progress)

declare inline_loop.simps [simp del]

definition mmd_parse_inline ::
  "mmd_ref_t list \<Rightarrow> heap \<Rightarrow> nat \<Rightarrow> string \<Rightarrow> nat \<Rightarrow> error + mmd_ref_t list \<times> heap \<times> string" where
  "mmd_parse_inline refs h par buf line =
    inline_loop par
      \<lparr>pi_refs = refs, pi_heap = h, pi_line = buf, pi_lineptr = line, pi_text = None,
       pi_type = MMD_TYPE_NORMAL_TEXT, pi_whitespace = (last_child (h ! par) \<noteq> None)\<rparr>"

section \<open>The line source\<close>

text \<open>
  A seekable \<open>FILE *\<close> opened for reading: the bytes of the file and the position.
  \<open>fgets(line, sizeof(line), fp)\<close> with \<open>sizeof(line) = 65536\<close> gives the buffer it filled,
  terminator included, or \<open>None\<close> at end of file.
\<close>

record FILE =
  f_content :: string
  f_pos :: nat

definition fgets :: "FILE \<Rightarrow> (string \<times> FILE) option" where
  "fgets fp =
    (let rest = drop (f_pos fp) (f_content fp) in
     if rest = [] then None
     else
       (let avail = (if length rest \<le> 65535 then rest else take 65535 rest);
            l = takeWhile (\<lambda>c. c \<noteq> CHR 0x0A) avail;
            got = (if length l < length avail then l @ [CHR 0x0A] else l)
        in Some (got @ [NUL], fp\<lparr>f_pos := f_pos fp + length got\<rparr>)))"

definition fopen :: "string \<Rightarrow> FILE" where
  "fopen bytes = \<lparr>f_content = bytes, f_pos = 0\<rparr>"

section \<open>Table lookahead\<close>

text \<open>The \<open>for\<close> loop of \<open>mmd_is_table\<close>: the index where it stops.\<close>

function table_scan :: "string \<Rightarrow> nat \<Rightarrow> nat" where
  "table_scan line ptr =
    (if ptr < length line \<and> line ! ptr \<noteq> NUL then
       (if line ! ptr = CHR ''>'' \<and> ptr = 0 then table_scan line (ptr + 1)
        else if line ! ptr \<notin> set [CHR '' '', CHR 0x09, CHR 0x0A, CHR 0x0D, CHR '':'', CHR ''-'', CHR ''|'']
          then ptr
        else table_scan line (ptr + 1))
     else ptr)"
  by pat_completeness auto
termination
  by (relation "measure (\<lambda>(line, ptr). length line - ptr)") auto

declare table_scan.simps [simp del]

definition mmd_is_table :: "FILE \<Rightarrow> bool \<times> FILE" where
  "mmd_is_table fp =
    (let pos = f_pos fp;
         (is_table, fp1) =
           (case fgets fp of
              None \<Rightarrow> (False, fp)
            | Some (line, fp') \<Rightarrow> (peek line (table_scan line 0) = NUL, fp'))
     in (is_table, fp1\<lparr>f_pos := pos\<rparr>))"

section \<open>Block-level state machine\<close>

text \<open>
  The variables of \<open>mmdLoadFile\<close> that live across lines: \<open>doc.references\<close>, the heap,
  \<open>doc.root\<close>, \<open>current\<close>, \<open>block\<close>, \<open>blank_code\<close>, \<open>columns\<close>, \<open>num_columns\<close> and \<open>rows\<close>.
  \<open>current\<close> is never \<open>NULL\<close> where it is read; an assignment that would make it \<open>NULL\<close> is
  the \<open>NullDeref\<close> that the next read of \<open>current->type\<close> would be.
\<close>

record load_state =
  ld_refs :: "mmd_ref_t list"
  ld_heap :: heap
  ld_root :: nat
  ld_current :: nat
  ld_block :: "nat option"
  ld_blank_code :: bool
  ld_columns :: "nat \<Rightarrow> mmd_type_t"
  ld_num_columns :: nat
  ld_rows :: int

text \<open>
  How the handling of a line goes on: \<open>Done\<close> is \<open>continue\<close> (the line is finished),
  \<open>More\<close> falls through to the next statement with the current \<open>lineptr\<close>.
\<close>

datatype flow = Done load_state FILE | More load_state nat

text \<open>
  Lines 478 to 515: an indented code line, or a fence line.  \<open>None\<close> when neither applies.
\<close>

definition indent_or_fence :: "load_state \<Rightarrow> string \<Rightarrow> nat \<Rightarrow> (error + load_state) option" where
  "indent_or_fence st line lineptr =
    (let h = ld_heap st; current = ld_current st in
     if 4 \<le> lineptr \<and> ld_block st = None \<and>
        (current = ld_root st \<or> node_type (h ! current) = MMD_TYPE_CODE_BLOCK) then
       (let (h1, cur1) = (if current = ld_root st
                          then mmd_add h (Some (ld_root st)) MMD_TYPE_CODE_BLOCK False None None
                          else (h, current));
            h2 = (if ld_blank_code st
                  then fst (mmd_add h1 (Some cur1) MMD_TYPE_CODE_TEXT False (Some [CHR 0x0A]) None)
                  else h1);
            h3 = fst (mmd_add h2 (Some cur1) MMD_TYPE_CODE_TEXT False (Some (cstr line 4)) None)
        in Some (Inr (st\<lparr>ld_heap := h3, ld_current := cur1, ld_blank_code := False\<rparr>)))
     else if peek line lineptr = CHR 0x60 \<and>
             (peek line (lineptr + 1) = NUL \<or> peek line (lineptr + 1) = CHR 0x60) then
       (case ld_block st of
          Some b \<Rightarrow>
            if node_type (h ! b) = MMD_TYPE_CODE_BLOCK then Some (Inr (st\<lparr>ld_block := None\<rparr>))
            else if node_type (h ! b) = MMD_TYPE_LIST_ITEM then
              (let (h1, n) = mmd_add h (Some b) MMD_TYPE_CODE_BLOCK False None None
               in Some (Inr (st\<lparr>ld_heap := h1, ld_block := Some n\<rparr>)))
            else
              (case parent (h ! b) of
                 None \<Rightarrow> Some (Inl NullDeref)
               | Some bp \<Rightarrow>
                   if node_type (h ! bp) = MMD_TYPE_LIST_ITEM then
                     (let (h1, n) = mmd_add h (Some bp) MMD_TYPE_CODE_BLOCK False None None
                      in Some (Inr (st\<lparr>ld_heap := h1, ld_block := Some n\<rparr>)))
                   else
                     (let (h1, n) = mmd_add h (Some current) MMD_TYPE_CODE_BLOCK False None None
                      in Some (Inr (st\<lparr>ld_heap := h1, ld_block := Some n\<rparr>))))
        | None \<Rightarrow>
            (let (h1, n) = mmd_add h (Some current) MMD_TYPE_CODE_BLOCK False None None
             in Some (Inr (st\<lparr>ld_heap := h1, ld_block := Some n\<rparr>))))
     else None)"

text \<open>
  The inner \<open>while (fgets(...))\<close> of the metadata block: lines up to one that starts with
  \<open>---\<close> or \<open>...\<close>, or to the end of the file.
\<close>

lemma fgets_progress:
  "fgets fp = Some (line, fp') \<Longrightarrow>
     f_content fp' = f_content fp \<and> f_pos fp < f_pos fp' \<and> f_pos fp < length (f_content fp)"
proof -
  assume a: "fgets fp = Some (line, fp')"
  then have b: "drop (f_pos fp) (f_content fp) \<noteq> []"
    by (auto simp: fgets_def Let_def split: if_splits)
  then have c: "f_pos fp < length (f_content fp)"
    by simp
  from b obtain x xs where "drop (f_pos fp) (f_content fp) = x # xs"
    by (cases "drop (f_pos fp) (f_content fp)") auto
  with a c show ?thesis
    by (auto simp: fgets_def Let_def split: if_splits)
qed

function metadata_loop :: "heap \<Rightarrow> nat \<Rightarrow> FILE \<Rightarrow> heap \<times> FILE" where
  "metadata_loop h block fp =
    (case fgets fp of
       None \<Rightarrow> (h, fp)
     | Some (line, fp') \<Rightarrow>
        (let lineptr = skip_while isspace line 0 in
         if strncmp_eq line 0 ''---'' \<or> strncmp_eq line 0 ''...'' then (h, fp')
         else
           (let lineend = lineptr + strlen line lineptr - 1;
                line' = (if lineptr < lineend \<and> peek line lineend = CHR 0x0A
                         then line[lineend := NUL] else line)
            in metadata_loop
                 (fst (mmd_add h (Some block) MMD_TYPE_METADATA_TEXT False (Some (cstr line' lineptr)) None))
                 block fp')))"
  by pat_completeness auto
termination
  by (relation "measure (\<lambda>(h, block, fp). length (f_content fp) - f_pos fp)")
     (auto dest!: fgets_progress)

declare metadata_loop.simps [simp del]

text \<open>
  Lines 517 to 564: a line inside a fenced code block, the metadata block at the start of
  the document, or a thematic break.  The scan for the thematic break moves \<open>lineptr\<close> also
  when the line turns out not to be one.
\<close>

definition code_meta_rule :: "load_state \<Rightarrow> string \<Rightarrow> nat \<Rightarrow> FILE \<Rightarrow> flow" where
  "code_meta_rule st line lineptr fp =
    (let h = ld_heap st in
     if (case ld_block st of Some b \<Rightarrow> node_type (h ! b) = MMD_TYPE_CODE_BLOCK | None \<Rightarrow> False) then
       Done (st\<lparr>ld_heap :=
               fst (mmd_add h (ld_block st) MMD_TYPE_CODE_TEXT False (Some (cstr line 0)) None)\<rparr>) fp
     else if strncmp_eq line lineptr ''---'' \<and> first_child (h ! ld_root st) = None then
       (let (h1, blk) = mmd_add h (Some (ld_root st)) MMD_TYPE_METADATA False None None;
            (h2, fp') = metadata_loop h1 blk fp
        in Done (st\<lparr>ld_heap := h2, ld_block := None\<rparr>) fp')
     else if ld_block st = None \<and>
             (strncmp_eq line lineptr ''---'' \<or> strncmp_eq line lineptr ''***'' \<or>
              strncmp_eq line lineptr ''___'') then
       (let ch = peek line lineptr;
            p = skip_while (\<lambda>c. c \<noteq> NUL \<and> (c = ch \<or> isspace c)) line (lineptr + 3)
        in if peek line p = NUL then
             Done (st\<lparr>ld_block := None,
                      ld_heap := fst (mmd_add h (Some (ld_current st)) MMD_TYPE_THEMATIC_BREAK
                                        False None None)\<rparr>) fp
           else More st p)
     else More st lineptr)"

text \<open>
  The \<open>for\<close> loop of the block-quote branch: up the parents to the root or to a block
  quote.  \<open>mmd_add\<close> gives every node an index above its parent's, so the walk goes down the
  indices; a heap in which it would not is the error \<open>NotATree\<close>.
\<close>

function quote_walk :: "heap \<Rightarrow> nat \<Rightarrow> nat \<Rightarrow> error + nat" where
  "quote_walk h root node =
    (if node \<noteq> root \<and> node_type (h ! node) \<noteq> MMD_TYPE_BLOCK_QUOTE then
       (case parent (h ! node) of
          None \<Rightarrow> Inl NullDeref
        | Some p \<Rightarrow> if p < node then quote_walk h root p else Inl NotATree)
     else Inr node)"
  by pat_completeness auto
termination
  by (relation "measure (\<lambda>(h, root, node). node)") auto

declare quote_walk.simps [simp del]

text \<open>Lines 566 to 591: the block-quote marker, or the way out of a block quote.\<close>

definition block_quote :: "load_state \<Rightarrow> string \<Rightarrow> nat \<Rightarrow> error + load_state \<times> nat" where
  "block_quote st line lineptr =
    (let h = ld_heap st; current = ld_current st in
     if peek line lineptr = CHR ''>'' then
       (case quote_walk h (ld_root st) current of
          Inl e \<Rightarrow> Inl e
        | Inr node \<Rightarrow>
            (let st1 = (if node = ld_root st \<or> node_type (h ! node) \<noteq> MMD_TYPE_BLOCK_QUOTE then
                          (let (h1, n) = mmd_add h (Some (ld_root st)) MMD_TYPE_BLOCK_QUOTE False None None
                           in st\<lparr>ld_heap := h1, ld_current := n\<rparr>)
                        else st)
             in Inr (st1, skip_while isspace line (lineptr + 1))))
     else if node_type (h ! current) = MMD_TYPE_BLOCK_QUOTE then
       (case parent (h ! current) of
          None \<Rightarrow> Inl NullDeref
        | Some p \<Rightarrow> Inr (st\<lparr>ld_current := p\<rparr>, lineptr))
     else if node_type (h ! current) = MMD_TYPE_TABLE \<and>
             (case parent (h ! current) of
                None \<Rightarrow> False
              | Some p \<Rightarrow> node_type (h ! p) = MMD_TYPE_BLOCK_QUOTE) then
       (case parent (h ! the (parent (h ! current))) of
          None \<Rightarrow> Inl NullDeref
        | Some pp \<Rightarrow> Inr (st\<lparr>ld_current := pp\<rparr>, lineptr))
     else Inr (st, lineptr))"

text \<open>\<open>while (P(*e) && e > low) e --;\<close>: a scan backwards that stops above \<open>low\<close>.\<close>

function back_while :: "(char \<Rightarrow> bool) \<Rightarrow> string \<Rightarrow> nat \<Rightarrow> nat \<Rightarrow> nat" where
  "back_while P buf low e = (if low < e \<and> P (peek buf e) then back_while P buf low (e - 1) else e)"
  by pat_completeness auto
termination
  by (relation "measure (\<lambda>(P, buf, low, e). e)") auto

declare back_while.simps [simp del]

text \<open>
  The cells of a table line (lines 652 to 693).  \<open>lineptr\<close> becomes \<open>NULL\<close> when \<open>strchr\<close>
  finds no further \<open>|\<close>.  A header or body row gets a cell per column, whose text goes
  through the inline tokenizer; the separator row sets the alignment of the columns.
\<close>

record cell_state =
  c_refs :: "mmd_ref_t list"
  c_heap :: heap
  c_line :: string
  c_lineptr :: "nat option"
  c_col :: nat
  c_columns :: "nat \<Rightarrow> mmd_type_t"

function cell_loop :: "nat option \<Rightarrow> nat option \<Rightarrow> cell_state \<Rightarrow> error + cell_state" where
  "cell_loop row block s =
    (case c_lineptr s of
       None \<Rightarrow> Inr s
     | Some lp \<Rightarrow>
        if peek (c_line s) lp \<noteq> NUL \<and> c_col s < 256 then
          (let start = lp;
               nxt = strchr (c_line s) (lp + 1) (CHR ''|'');
               line1 = (case nxt of None \<Rightarrow> c_line s | Some q \<Rightarrow> (c_line s)[q := NUL]);
               lineptr' = map_option Suc nxt
           in case block of
                Some b \<Rightarrow>
                  (let (h1, cell) =
                         (if node_type (c_heap s ! b) = MMD_TYPE_TABLE_HEADER
                          then mmd_add (c_heap s) row MMD_TYPE_TABLE_HEADER_CELL False None None
                          else mmd_add (c_heap s) row (c_columns s (c_col s)) False None None)
                   in case mmd_parse_inline (c_refs s) h1 cell line1 start of
                        Inl e \<Rightarrow> Inl e
                      | Inr (refs', h2, line2) \<Rightarrow>
                          cell_loop row block
                            (s\<lparr>c_refs := refs', c_heap := h2, c_line := line2,
                               c_lineptr := lineptr', c_col := c_col s + 1\<rparr>))
              | None \<Rightarrow>
                  (let st = skip_while isspace line1 start;
                       e = back_while isspace line1 st (st + strlen line1 st - 1);
                       cols = (if peek line1 st = CHR '':'' \<and> peek line1 e = CHR '':'' then
                                 (c_columns s)(c_col s := MMD_TYPE_TABLE_BODY_CELL_CENTER)
                               else if peek line1 e = CHR '':'' then
                                 (c_columns s)(c_col s := MMD_TYPE_TABLE_BODY_CELL_RIGHT)
                               else c_columns s)
                   in cell_loop row block
                        (s\<lparr>c_line := line1, c_lineptr := lineptr', c_col := c_col s + 1,
                           c_columns := cols\<rparr>)))
        else Inr s)"
  by pat_completeness auto
termination
  by (relation "measure (\<lambda>(row, block, s). 256 - c_col s)") auto

declare cell_loop.simps [simp del]

text \<open>
  Lines 605 to 713: one line of a table.  The first line opens the table and is its header
  row (\<open>rows = -1\<close>), the next sets the alignments, the third opens the body.
\<close>

definition table_line :: "load_state \<Rightarrow> string \<Rightarrow> nat \<Rightarrow> error + load_state" where
  "table_line st line lineptr =
    (let h = ld_heap st; current = ld_current st;
         st1 = (if node_type (h ! current) \<noteq> MMD_TYPE_TABLE then
                  (let par = (if current \<noteq> ld_root st \<and> node_type (h ! current) \<noteq> MMD_TYPE_BLOCK_QUOTE
                              then parent (h ! current) else Some current);
                       (h1, tbl) = mmd_add h par MMD_TYPE_TABLE False None None;
                       (h2, hdr) = mmd_add h1 (Some tbl) MMD_TYPE_TABLE_HEADER False None None
                   in st\<lparr>ld_heap := h2, ld_current := tbl, ld_block := Some hdr,
                         ld_columns := (\<lambda>col. MMD_TYPE_TABLE_BODY_CELL_LEFT),
                         ld_num_columns := 0, ld_rows := - 1\<rparr>)
                else if 0 < ld_rows st then
                  (if ld_rows st = 1 then
                     (let (h1, body) = mmd_add h (Some current) MMD_TYPE_TABLE_BODY False None None
                      in st\<lparr>ld_heap := h1, ld_block := Some body\<rparr>)
                   else st)
                else st\<lparr>ld_block := None\<rparr>);
         (h3, row) = (case ld_block st1 of
                        None \<Rightarrow> (ld_heap st1, None)
                      | Some b \<Rightarrow>
                          (let (hh, r) = mmd_add (ld_heap st1) (Some b) MMD_TYPE_TABLE_ROW False None None
                           in (hh, Some r)));
         lineptr1 = (if peek line lineptr = CHR ''|'' then lineptr + 1 else lineptr);
         e0 = lineptr1 + strlen line lineptr1 - 1;
         line1 = (if lineptr1 < e0 then
                    (let e = back_while (\<lambda>c. c = CHR 0x0A \<or> c = CHR ''r'') line lineptr1 e0
                     in if lineptr1 < e \<and> peek line e = CHR ''|'' then line[e := NUL] else line)
                  else line)
     in case cell_loop row (ld_block st1)
               \<lparr>c_refs = ld_refs st1, c_heap = h3, c_line = line1, c_lineptr = Some lineptr1,
                c_col = 0, c_columns = ld_columns st1\<rparr> of
          Inl e \<Rightarrow> Inl e
        | Inr cs \<Rightarrow>
            (let st2 = st1\<lparr>ld_refs := c_refs cs, ld_heap := c_heap cs, ld_columns := c_columns cs\<rparr>;
                 st3 = (if ld_num_columns st2 < c_col cs then st2\<lparr>ld_num_columns := c_col cs\<rparr>
                        else if (case ld_block st2 of
                                   None \<Rightarrow> False
                                 | Some b \<Rightarrow> node_type (ld_heap st2 ! b) \<noteq> MMD_TYPE_TABLE_HEADER) then
                          st2\<lparr>ld_heap :=
                                fold (\<lambda>col a. fst (mmd_add a row (ld_columns st2 col) False None None))
                                  [c_col cs ..< ld_num_columns st2] (ld_heap st2)\<rparr>
                        else st2)
             in Inr (st3\<lparr>ld_rows := ld_rows st3 + 1\<rparr>)))"

text \<open>
  \<open>MMD_TYPE_HEADING_1 + n\<close> for \<open>n\<close> from 0 to 5.  The numeric values of the enumeration
  are in the header that is not part of the sources; the six heading types follow one
  another there.
\<close>

definition heading_type :: "nat \<Rightarrow> mmd_type_t" where
  "heading_type n =
    [MMD_TYPE_HEADING_1, MMD_TYPE_HEADING_2, MMD_TYPE_HEADING_3, MMD_TYPE_HEADING_4,
     MMD_TYPE_HEADING_5, MMD_TYPE_HEADING_6] ! n"

text \<open>The loop that strips trailing \<open>#\<close> from a heading line.\<close>

function strip_hashes :: "string \<Rightarrow> nat \<Rightarrow> nat \<Rightarrow> string" where
  "strip_hashes buf low t =
    (if low < t \<and> peek buf t = CHR ''#'' then strip_hashes (buf[t := NUL]) low (t - 1) else buf)"
  by pat_completeness auto
termination
  by (relation "measure (\<lambda>(buf, low, t). t)") auto

declare strip_hashes.simps [simp del]

text \<open>
  Lines 722 to 869: the kind of block the line belongs to.  \<open>Finished\<close> is \<open>continue\<close>;
  \<open>Start\<close> carries the state, the line buffer, \<open>lineptr\<close> and \<open>type\<close> on to line 871.
\<close>

datatype classified = Finished "error + load_state" | Start load_state string nat mmd_type_t

definition classify :: "load_state \<Rightarrow> string \<Rightarrow> nat \<Rightarrow> classified" where
  "classify st line lineptr =
    (let h = ld_heap st; current = ld_current st; root = ld_root st; c = peek line lineptr in
     if strcmp_eq line lineptr ''+'' then
       (case ld_block st of
          None \<Rightarrow> Finished (Inr st)
        | Some b \<Rightarrow>
            if node_type (h ! b) = MMD_TYPE_LIST_ITEM then
              (let (h1, n) = mmd_add h (Some b) MMD_TYPE_PARAGRAPH False None None
               in Finished (Inr (st\<lparr>ld_heap := h1, ld_block := Some n\<rparr>)))
            else
              (case parent (h ! b) of
                 None \<Rightarrow> Finished (Inl NullDeref)
               | Some bp \<Rightarrow>
                   if node_type (h ! bp) = MMD_TYPE_LIST_ITEM then
                     (let (h1, n) = mmd_add h (Some bp) MMD_TYPE_PARAGRAPH False None None
                      in Finished (Inr (st\<lparr>ld_heap := h1, ld_block := Some n\<rparr>)))
                   else Finished (Inr (st\<lparr>ld_block := None\<rparr>))))
     else if (case ld_block st of Some b \<Rightarrow> node_type (h ! b) = MMD_TYPE_PARAGRAPH | None \<Rightarrow> False) \<and>
             (strncmp_eq line lineptr ''---'' \<or> strncmp_eq line lineptr ''==='') then
       (let p1 = skip_while (\<lambda>x. x = c) line (lineptr + 3);
            p2 = skip_while isspace line p1
        in if peek line p2 = NUL then
             Finished (Inr (st\<lparr>ld_heap := upd h (the (ld_block st))
                                    (node_type_update (\<lambda>_. if c = CHR ''=''
                                       then MMD_TYPE_HEADING_1 else MMD_TYPE_HEADING_2)),
                               ld_block := None\<rparr>))
           else Start st line p2 MMD_TYPE_PARAGRAPH)
     else if (c = CHR ''-'' \<or> c = CHR ''+'' \<or> c = CHR ''*'') \<and> isspace (peek line (lineptr + 1)) then
       (let p = skip_while isspace line (lineptr + 2);
            st1 = (if current = root \<and>
                      (case last_child (h ! root) of
                         None \<Rightarrow> False
                       | Some l \<Rightarrow> node_type (h ! l) = MMD_TYPE_UNORDERED_LIST) then
                     st\<lparr>ld_current := the (last_child (h ! root))\<rparr>
                   else if node_type (h ! current) \<noteq> MMD_TYPE_UNORDERED_LIST then
                     (let (h1, n) = mmd_add h
                            (Some (if node_type (h ! current) = MMD_TYPE_BLOCK_QUOTE then current else root))
                            MMD_TYPE_UNORDERED_LIST False None None
                      in st\<lparr>ld_heap := h1, ld_current := n\<rparr>)
                   else st)
        in Start (st1\<lparr>ld_block := None\<rparr>) line p MMD_TYPE_LIST_ITEM)
     else if isdigit c then
       (let temp = skip_while isdigit line (lineptr + 1) in
        if peek line temp = CHR ''.'' \<and> isspace (peek line (temp + 1)) then
          (let p = skip_while isspace line (temp + 2);
               st1 = (if current = root \<and>
                         (case last_child (h ! root) of
                            None \<Rightarrow> False
                          | Some l \<Rightarrow> node_type (h ! l) = MMD_TYPE_ORDERED_LIST) then
                        st\<lparr>ld_current := the (last_child (h ! root))\<rparr>
                      else if node_type (h ! current) \<noteq> MMD_TYPE_ORDERED_LIST then
                        (let (h1, n) = mmd_add h (Some current) MMD_TYPE_ORDERED_LIST False None None
                         in st\<lparr>ld_heap := h1, ld_current := n\<rparr>)
                      else st)
           in Start (st1\<lparr>ld_block := None\<rparr>) line p MMD_TYPE_LIST_ITEM)
        else
          Start st line lineptr
            (case ld_block st of None \<Rightarrow> MMD_TYPE_PARAGRAPH | Some b \<Rightarrow> node_type (h ! b)))
     else if c = CHR ''#'' then
       (let temp = skip_while (\<lambda>x. x = CHR ''#'') line (lineptr + 1);
            st1 = (if node_type (h ! current) \<noteq> MMD_TYPE_BLOCK_QUOTE then st\<lparr>ld_current := root\<rparr>
                   else st)
        in if temp - lineptr \<le> 6 then
             (let p = skip_while isspace line temp;
                  line1 = strip_hashes line p (p + strlen line p - 1)
              in Start (st1\<lparr>ld_block := None\<rparr>) line1 p (heading_type (temp - lineptr - 1)))
           else Start st1 line lineptr MMD_TYPE_PARAGRAPH)
     else if ld_block st = None then
       Start (if lineptr = 0 then st\<lparr>ld_current := root\<rparr> else st) line lineptr MMD_TYPE_PARAGRAPH
     else Start st line lineptr (node_type (h ! the (ld_block st))))"

text \<open>
  Lines 871 to 879: open a block of the type found, unless the active block has it, and
  hand the rest of the line to the inline tokenizer.
\<close>

definition open_block :: "load_state \<Rightarrow> string \<Rightarrow> nat \<Rightarrow> mmd_type_t \<Rightarrow> error + load_state" where
  "open_block st line lineptr ty =
    (let h = ld_heap st;
         st1 = (if (case ld_block st of None \<Rightarrow> True | Some b \<Rightarrow> node_type (h ! b) \<noteq> ty) then
                  (let cur = (if node_type (h ! ld_current st) = MMD_TYPE_CODE_BLOCK then ld_root st
                              else ld_current st);
                       (h1, n) = mmd_add h (Some cur) ty False None None
                   in st\<lparr>ld_heap := h1, ld_current := cur, ld_block := Some n\<rparr>)
                else st)
     in case mmd_parse_inline (ld_refs st1) (ld_heap st1) (the (ld_block st1)) line lineptr of
          Inl e \<Rightarrow> Inl e
        | Inr (refs', h', line') \<Rightarrow> Inr (st1\<lparr>ld_refs := refs', ld_heap := h'\<rparr>))"

text \<open>
  The condition of line 599, \<open>strchr(lineptr, '|') && (current->type == MMD_TYPE_TABLE ||
  mmd_is_table(fp))\<close>, with the file as the evaluation leaves it: \<open>mmd_is_table\<close> is called
  only for a line with a \<open>|\<close> while \<open>current\<close> is not a table.
\<close>

definition table_line_test :: "string \<Rightarrow> nat \<Rightarrow> heap \<Rightarrow> nat \<Rightarrow> FILE \<Rightarrow> bool \<times> FILE" where
  "table_line_test line lineptr h current fp =
    (if strchr line lineptr (CHR ''|'') \<noteq> None then
       (if node_type (h ! current) = MMD_TYPE_TABLE then (True, fp) else mmd_is_table fp)
     else (False, fp))"

text \<open>
  The body of the \<open>while (fgets(...))\<close> loop of \<open>mmdLoadFile\<close> for the line in the buffer.
\<close>

definition load_line :: "load_state \<Rightarrow> string \<Rightarrow> FILE \<Rightarrow> error + load_state \<times> FILE" where
  "load_line st line fp =
    (let lineptr = skip_while isspace line 0 in
     case indent_or_fence st line lineptr of
       Some (Inl e) \<Rightarrow> Inl e
     | Some (Inr st') \<Rightarrow> Inr (st', fp)
     | None \<Rightarrow>
        (case code_meta_rule st line lineptr fp of
           Done st' fp' \<Rightarrow> Inr (st', fp')
         | More st0 lineptr0 \<Rightarrow>
            (case block_quote st0 line lineptr0 of
               Inl e \<Rightarrow> Inl e
             | Inr (st1, lineptr1) \<Rightarrow>
                if peek line lineptr1 = NUL then
                  Inr (st1\<lparr>ld_blank_code :=
                             (node_type (ld_heap st1 ! ld_current st1) = MMD_TYPE_CODE_BLOCK),
                           ld_block := None\<rparr>, fp)
                else
                  (let (tab, fp1) = table_line_test line lineptr1 (ld_heap st1) (ld_current st1) fp
                   in if tab then
                        (case table_line st1 line lineptr1 of
                           Inl e \<Rightarrow> Inl e
                         | Inr st2 \<Rightarrow> Inr (st2, fp1))
                      else
                        (case (if node_type (ld_heap st1 ! ld_current st1) = MMD_TYPE_TABLE then
                                 (case parent (ld_heap st1 ! ld_current st1) of
                                    None \<Rightarrow> Inl NullDeref
                                  | Some p \<Rightarrow> Inr (st1\<lparr>ld_current := p, ld_block := None\<rparr>))
                               else Inr st1) of
                           Inl e \<Rightarrow> Inl e
                         | Inr st2 \<Rightarrow>
                            (case classify st2 line lineptr1 of
                               Finished (Inl e) \<Rightarrow> Inl e
                             | Finished (Inr st3) \<Rightarrow> Inr (st3, fp1)
                             | Start st3 line3 lineptr3 ty \<Rightarrow>
                                (case open_block st3 line3 lineptr3 ty of
                                   Inl e \<Rightarrow> Inl e
                                 | Inr st4 \<Rightarrow> Inr (st4, fp1))))))))"

text \<open>Handling a line never moves the file position back.\<close>

lemma metadata_loop_pos:
  "metadata_loop h block fp = (h', fp') \<Longrightarrow>
     f_content fp' = f_content fp \<and> f_pos fp \<le> f_pos fp'"
proof (induction h block fp arbitrary: h' fp' rule: metadata_loop.induct)
  case (1 h block fp)
  show ?case
  proof (cases "fgets fp")
    case None
    with "1.prems" show ?thesis
      by (subst (asm) metadata_loop.simps) simp
  next
    case (Some a)
    obtain line fp1 where a: "a = (line, fp1)"
      by (cases a)
    note g = fgets_progress[OF Some[unfolded a]]
    show ?thesis
    proof (cases "strncmp_eq line 0 ''---'' \<or> strncmp_eq line 0 ''...''")
      case True
      with "1.prems" Some a g show ?thesis
        by (subst (asm) metadata_loop.simps) (auto simp: Let_def)
    next
      case False
      from "1.prems" Some a False
      have "f_content fp' = f_content fp1 \<and> f_pos fp1 \<le> f_pos fp'"
        by (subst (asm) metadata_loop.simps)
           (auto simp: Let_def intro!: "1.IH"[OF Some a[symmetric] refl _ refl refl])
      with g show ?thesis
        by simp
    qed
  qed
qed

lemma mmd_is_table_restores: "snd (mmd_is_table fp) = fp"
  by (auto simp: mmd_is_table_def Let_def split: option.splits prod.splits dest!: fgets_progress)

lemma load_line_pos:
  assumes "load_line st line fp = Inr (st', fp')"
  shows "f_content fp' = f_content fp \<and> f_pos fp \<le> f_pos fp'"
proof -
  have a: "\<And>b fp1. mmd_is_table fp = (b, fp1) \<Longrightarrow> fp1 = fp"
    using mmd_is_table_restores[of fp] by simp
  from assms show ?thesis
    unfolding load_line_def code_meta_rule_def table_line_test_def Let_def
    by (auto split: option.splits sum.splits flow.splits prod.splits if_splits classified.splits
        dest!: metadata_loop_pos a)
qed

text \<open>The \<open>while (fgets(...))\<close> loop of \<open>mmdLoadFile\<close>.\<close>

function load_loop :: "load_state \<Rightarrow> FILE \<Rightarrow> error + load_state" where
  "load_loop st fp =
    (case fgets fp of
       None \<Rightarrow> Inr st
     | Some (line, fp1) \<Rightarrow>
        (case load_line st line fp1 of
           Inl e \<Rightarrow> Inl e
         | Inr (st', fp2) \<Rightarrow> load_loop st' fp2))"
  by pat_completeness auto
termination
  by (relation "measure (\<lambda>(st, fp). length (f_content fp) - f_pos fp)")
     (auto dest!: fgets_progress load_line_pos)

declare load_loop.simps [simp del]

text \<open>
  The loop over the references at the end of \<open>mmdLoadFile\<close>: every node still pending gets
  the name of its reference as URL.
\<close>

definition resolve_pending :: "mmd_ref_t \<Rightarrow> heap \<Rightarrow> heap" where
  "resolve_pending r h =
    (case pending r of
       None \<Rightarrow> h
     | Some ps \<Rightarrow> fold (\<lambda>n a. upd a n (url_update (\<lambda>_. Some (ref_name r)))) ps h)"

text \<open>
  The variables of \<open>mmdLoadFile\<close> before the first line, for a heap that holds the
  document node \<open>root\<close>.  \<open>columns\<close> starts uninitialised in the source and is filled
  before it is read; here it starts as \<open>MMD_TYPE_NONE\<close>.
\<close>

definition start_state :: "heap \<Rightarrow> nat \<Rightarrow> load_state" where
  "start_state h root =
    \<lparr>ld_refs = [], ld_heap = h, ld_root = root, ld_current = root, ld_block = None,
     ld_blank_code = False, ld_columns = (\<lambda>col. MMD_TYPE_NONE), ld_num_columns = 0,
     ld_rows = 0\<rparr>"

text \<open>\<open>mmdLoadFile\<close>: the heap and the root node.\<close>

definition mmdLoadFile :: "FILE \<Rightarrow> error + heap \<times> nat" where
  "mmdLoadFile fp =
    (let (h0, root) = mmd_add [] None MMD_TYPE_DOCUMENT False None None
     in case load_loop (start_state h0 root) fp of
          Inl e \<Rightarrow> Inl e
        | Inr st \<Rightarrow> Inr (fold resolve_pending (ld_refs st) (ld_heap st), root))"

section \<open>Reading a parsed document\<close>

text \<open>
  The nodes of a finished parse in allocation order, each with its type, white-space
  flag, text, URL and parent.  \<open>mmd_add\<close> appends a node to its parent's children, so the
  children of a node stand in this list in document order.
\<close>

definition nodes_of ::
  "error + heap \<times> nat \<Rightarrow>
   error + (mmd_type_t \<times> bool \<times> string option \<times> string option \<times> nat option) list" where
  "nodes_of r =
    (case r of
       Inl e \<Rightarrow> Inl e
     | Inr (h, root) \<Rightarrow>
         Inr (map (\<lambda>n. (node_type n, whitespace n, node_text n, url n, parent n)) h))"

text \<open>The defining equations by which the parser is run on a given input.\<close>

lemmas run_parser =
  NUL_def isspace_def isdigit_def peek_def cstr_def strlen_def skip_while_def strchr_def
  strncmp_eq_def strcmp_eq_def memmove_left_def upd_def zero_node_def mmd_add_def pending_nodes_def
  strcasecmp_eq_def tolower_def ref_link_def mmd_ref_add_def
  link_text_end.simps link_target.simps mmd_parse_link_def add_run_def flush_text_def flush_cut_def
  after_link_def step_space_def step_image_def step_link_def step_autolink_def step_delim_def
  step_tilde_def step_backtick_def step_plain_def inline_step_def inline_loop.simps
  mmd_parse_inline_def fgets_def fopen_def table_scan.simps mmd_is_table_def indent_or_fence_def
  metadata_loop.simps code_meta_rule_def quote_walk.simps block_quote_def back_while.simps
  cell_loop.simps table_line_def table_line_test_def heading_type_def strip_hashes.simps classify_def open_block_def
  load_line_def load_loop.simps resolve_pending_def start_state_def mmdLoadFile_def nodes_of_def Let_def

section \<open>Reference resolution\<close>

lemma ref_find_Some:
  "mmd_ref_find refs name = Some i \<Longrightarrow> i < length refs \<and> strcasecmp_eq name (ref_name (refs ! i))"
  by (induction refs arbitrary: i) (auto split: if_splits)

lemma ref_find_casefold:
  "strcasecmp_eq a b \<Longrightarrow> mmd_ref_find refs a = mmd_ref_find refs b"
  by (induction refs) (auto simp: strcasecmp_eq_def)

lemma ref_add_keeps_url:
  assumes "j < length refs" and "ref_url (refs ! j) \<noteq> None"
  shows "ref_url (fst (mmd_ref_add refs h node name u) ! j) = ref_url (refs ! j)"
proof (cases "mmd_ref_find refs name")
  case None
  with assms show ?thesis
    by (auto simp: mmd_ref_add_def ref_link_def nth_append nth_list_update split: option.splits)
next
  case (Some i)
  show ?thesis
  proof (cases "i = j")
    case True
    with Some assms show ?thesis
      by (auto simp: mmd_ref_add_def ref_link_def split: option.splits)
  next
    case False
    with Some assms show ?thesis
      by (auto simp: mmd_ref_add_def ref_link_def Let_def nth_list_update split: option.splits)
  qed
qed

lemma fold_set_url:
  "n < length h \<Longrightarrow>
   fold (\<lambda>p a. upd a p (url_update (\<lambda>_. v))) ps h ! n =
     (if n \<in> set ps then (h ! n)\<lparr>url := v\<rparr> else h ! n)"
proof (induction ps arbitrary: h)
  case Nil
  then show ?case by simp
next
  case (Cons a ps)
  then show ?case
    by (cases "a = n") (auto simp: upd_def)
qed

lemma length_fold_set_url [simp]:
  "length (fold (\<lambda>p a. upd a p (url_update (\<lambda>_. v))) ps h) = length h"
  by (induction ps arbitrary: h) (auto simp: upd_def)

text \<open>
  C10.  First definition wins.  When the entry found for a name already has a URL, a
  definition (a call without a node) of a name that is the same up to case, with any URL,
  leaves the whole reference table and the heap as they were.  And no call of
  \<open>mmd_ref_add\<close> changes the URL of any entry that has one: only an entry whose URL is
  still absent can be given one.
\<close>

theorem first_definition_wins:
  "(mmd_ref_find refs name = Some i \<and> ref_url (refs ! i) = Some u \<and> strcasecmp_eq name' name
      \<longrightarrow> mmd_ref_add refs h None name' (Some u') = (refs, h)) \<and>
   (\<forall>j < length refs. ref_url (refs ! j) \<noteq> None
      \<longrightarrow> ref_url (fst (mmd_ref_add refs h node nm v) ! j) = ref_url (refs ! j))"
proof (intro conjI impI allI)
  assume a: "mmd_ref_find refs name = Some i \<and> ref_url (refs ! i) = Some u \<and> strcasecmp_eq name' name"
  then have "mmd_ref_find refs name' = Some i"
    using ref_find_casefold[of name' name refs] by simp
  with a show "mmd_ref_add refs h None name' (Some u') = (refs, h)"
    by (simp add: mmd_ref_add_def ref_link_def)
next
  fix j
  assume "j < length refs" and "ref_url (refs ! j) \<noteq> None"
  then show "ref_url (fst (mmd_ref_add refs h node nm v) ! j) = ref_url (refs ! j)"
    by (rule ref_add_keeps_url)
qed

theorem first_definition_wins_witness:
  "mmd_ref_find [\<lparr>ref_name = ''bar'', ref_url = Some ''http://a'', pending = None\<rparr>] ''bar'' = Some 0 \<and>
   strcasecmp_eq ''BAR'' ''bar'' \<and>
   mmd_ref_add [\<lparr>ref_name = ''bar'', ref_url = Some ''http://a'', pending = None\<rparr>] [] None
       ''BAR'' (Some ''http://b'') =
     ([\<lparr>ref_name = ''bar'', ref_url = Some ''http://a'', pending = None\<rparr>], [])"
  using first_definition_wins
    [of "[\<lparr>ref_name = ''bar'', ref_url = Some ''http://a'', pending = None\<rparr>]" "''bar''" 0
        "''http://a''" "''BAR''" "[]" "''http://b''" None "''x''" None]
  by (simp add: strcasecmp_eq_def tolower_def)

text \<open>Scanning a buffer that is given in pieces.\<close>

lemma skip_while_at:
  "p = length pre \<Longrightarrow> \<forall>c\<in>set xs. P c \<Longrightarrow> \<not> P y \<Longrightarrow> skip_while P (pre @ xs @ y # ys) p = p + length xs"
  by (simp add: skip_while_def takeWhile_append2 takeWhile_tail)

lemma cstr_at:
  "p = length pre \<Longrightarrow> NUL \<notin> set xs \<Longrightarrow> cstr (pre @ xs @ NUL # ys) p = xs"
  by (auto simp: cstr_def takeWhile_tail)

lemma peek_at: "p = length pre \<Longrightarrow> peek (pre @ y # ys) p = y"
  by (simp add: peek_def)

lemma update_at: "p = length pre \<Longrightarrow> (pre @ y # ys)[p := z] = pre @ z # ys"
  by (simp add: list_update_append)

lemma link_text_end_at:
  "p = length pre \<Longrightarrow> \<forall>c\<in>set name. c \<noteq> NUL \<and> c \<noteq> CHR '']'' \<and> c \<noteq> CHR 0x22 \<Longrightarrow>
   link_text_end (pre @ name @ CHR '']'' # rest) p = p + length name"
proof (induction name arbitrary: pre p)
  case Nil
  then show ?case
    by (subst link_text_end.simps) simp
next
  case (Cons a name)
  have "link_text_end ((pre @ [a]) @ name @ CHR '']'' # rest) (Suc p) = Suc p + length name"
    using Cons.prems by (intro Cons.IH) auto
  with Cons.prems show ?case
    by (subst link_text_end.simps) (simp add: nth_append)
qed

text \<open>
  A definition line: \<open>[name]\<close>, a colon, the URL up to white space or the end of the
  string.  \<open>mmd_parse_link\<close> hands the name and the URL to \<open>mmd_ref_add\<close> without a node and
  reports no text, so no node is added for the line.
\<close>

lemma parse_link_definition:
  assumes nm: "\<forall>c\<in>set name. c \<noteq> NUL \<and> c \<noteq> CHR '']'' \<and> c \<noteq> CHR 0x22"
    and s0: "\<forall>c\<in>set sp0. isspace c" and s1: "\<forall>c\<in>set sp1. isspace c"
    and u: "\<forall>c\<in>set u. c \<noteq> NUL \<and> \<not> isspace c"
    and t: "t = NUL \<or> (isspace t \<and> u \<noteq> [])"
    and buf: "buf = CHR ''['' # name @ CHR '']'' # sp0 @ CHR '':'' # sp1 @ u @ t # rest"
  shows "mmd_parse_link refs h buf 0 =
     \<lparr>lk_ptr = 3 + length name + length sp0 + length sp1 + length u,
      lk_text = None, lk_url = None, lk_refname = None,
      lk_line = CHR ''['' # name @ NUL # sp0 @ CHR '':'' # sp1 @ u @ NUL # rest,
      lk_refs = fst (mmd_ref_add refs h None name (Some u)),
      lk_heap = snd (mmd_ref_add refs h None name (Some u))\<rparr>"
proof -
  have ws: "\<not> isspace NUL" "\<not> isspace (CHR '':'')" "isspace c \<Longrightarrow> c \<noteq> NUL" for c
    by (auto simp: isspace_def NUL_def)
  define p1 where "p1 = 1 + length name"
  have a: "link_text_end buf (Suc 0) = p1"
    unfolding buf p1_def
    using link_text_end_at[where pre="[CHR ''['']" and name=name
        and rest="sp0 @ CHR '':'' # sp1 @ u @ t # rest", OF _ nm]
    by (simp add: add.assoc)
  have b: "peek buf p1 = CHR '']''"
    unfolding buf p1_def
    using peek_at[where pre="CHR ''['' # name" and y="CHR '']''"
        and ys="sp0 @ CHR '':'' # sp1 @ u @ t # rest"]
    by (simp add: add.assoc)
  define buf1 where "buf1 = CHR ''['' # name @ NUL # sp0 @ CHR '':'' # sp1 @ u @ t # rest"
  have c: "buf[p1 := NUL] = buf1"
    unfolding buf p1_def buf1_def
    using update_at[where pre="CHR ''['' # name" and y="CHR '']''" and z=NUL
        and ys="sp0 @ CHR '':'' # sp1 @ u @ t # rest"]
    by (simp add: add.assoc)
  define p2 where "p2 = p1 + 1 + length sp0"
  have d: "skip_while isspace buf1 (Suc p1) = p2"
    unfolding buf1_def p1_def p2_def
    using skip_while_at[where pre="CHR ''['' # name @ [NUL]" and xs=sp0 and P=isspace
        and y="CHR '':''" and ys="sp1 @ u @ t # rest", OF _ s0 ws(2)]
    by (simp add: add.assoc)
  have e: "peek buf1 p2 = CHR '':''"
    unfolding buf1_def p1_def p2_def
    using peek_at[where pre="CHR ''['' # name @ NUL # sp0" and y="CHR '':''"
        and ys="sp1 @ u @ t # rest"]
    by (simp add: add.assoc)
  define p3 where "p3 = p2 + 1 + length sp1"
  have s1': "\<forall>c\<in>set sp1. c \<noteq> NUL \<and> isspace c"
    using s1 ws(3) by blast
  have f: "skip_while (\<lambda>c. c \<noteq> NUL \<and> isspace c) buf1 (Suc p2) = p3"
  proof (cases u)
    case Nil
    with t have "t = NUL" by simp
    with Nil show ?thesis
      unfolding buf1_def p1_def p2_def p3_def
      using skip_while_at[where pre="CHR ''['' # name @ NUL # sp0 @ [CHR '':'']" and xs=sp1
          and P="\<lambda>c. c \<noteq> NUL \<and> isspace c" and y=NUL and ys=rest, OF _ s1']
      by (simp add: add.assoc)
  next
    case (Cons x xs)
    with u have "\<not> (x \<noteq> NUL \<and> isspace x)" by simp
    with Cons show ?thesis
      unfolding buf1_def p1_def p2_def p3_def
      using skip_while_at[where pre="CHR ''['' # name @ NUL # sp0 @ [CHR '':'']" and xs=sp1
          and P="\<lambda>c. c \<noteq> NUL \<and> isspace c" and y=x and ys="xs @ t # rest", OF _ s1']
      by (simp add: add.assoc)
  qed
  define p4 where "p4 = p3 + length u"
  have t': "\<not> (t \<noteq> NUL \<and> \<not> isspace t)"
    using t by auto
  have g: "skip_while (\<lambda>c. c \<noteq> NUL \<and> \<not> isspace c) buf1 p3 = p4"
    unfolding buf1_def p1_def p2_def p3_def p4_def
    using skip_while_at[where pre="CHR ''['' # name @ NUL # sp0 @ CHR '':'' # sp1" and xs=u
        and P="\<lambda>c. c \<noteq> NUL \<and> \<not> isspace c" and y=t and ys=rest, OF _ u t']
    by (simp add: add.assoc)
  define buf2 where "buf2 = CHR ''['' # name @ NUL # sp0 @ CHR '':'' # sp1 @ u @ NUL # rest"
  have i: "buf1[p4 := NUL] = buf2"
    unfolding buf1_def p1_def p2_def p3_def p4_def buf2_def
    using update_at[where pre="CHR ''['' # name @ NUL # sp0 @ CHR '':'' # sp1 @ u" and y=t
        and ys=rest and z=NUL]
    by (simp add: add.assoc)
  have nm': "NUL \<notin> set name" and u': "NUL \<notin> set u"
    using nm u by auto
  have j: "cstr buf2 (Suc 0) = name"
    unfolding buf2_def
    using cstr_at[where pre="[CHR ''['']" and xs=name, OF _ nm'] by simp
  have k: "cstr buf2 p3 = u"
    unfolding buf2_def p1_def p2_def p3_def
    using cstr_at[where pre="CHR ''['' # name @ NUL # sp0 @ CHR '':'' # sp1" and xs=u and ys=rest, OF _ u']
    by (simp add: add.assoc)
  have l: "p4 = 3 + length name + length sp0 + length sp1 + length u"
    by (simp add: p1_def p2_def p3_def p4_def)
  have m: "CHR '']'' \<noteq> NUL" "CHR '':'' \<noteq> CHR ''(''" "CHR '':'' \<noteq> CHR ''[''"
    by (simp_all add: NUL_def)
  show ?thesis
    unfolding mmd_parse_link_def Let_def
    by (simp add: a b c d e f g i j k m split_beta l[symmetric] buf2_def[symmetric])
qed

lemma resolve_pending_nth:
  "n < length h \<Longrightarrow>
   resolve_pending r h ! n =
     (if n \<in> set (pending_nodes r) then (h ! n)\<lparr>url := Some (ref_name r)\<rparr> else h ! n)"
  by (auto simp: resolve_pending_def pending_nodes_def fold_set_url split: option.splits)

lemma length_resolve_pending [simp]: "length (resolve_pending r h) = length h"
  by (auto simp: resolve_pending_def split: option.splits)

lemma fold_resolve_pending_other:
  "\<forall>r\<in>set rs. n \<notin> set (pending_nodes r) \<Longrightarrow> n < length h \<Longrightarrow>
   fold resolve_pending rs h ! n = h ! n"
  by (induction rs arbitrary: h) (auto simp: resolve_pending_nth)

lemma length_fold_resolve_pending [simp]: "length (fold resolve_pending rs h) = length h"
  by (induction rs arbitrary: h) auto

text \<open>
  C1.  A definition line \<open>[name]: url\<close> for a name whose entry has pending nodes and no URL:
  \<open>mmd_parse_link\<close> reports no text (the line adds no node), the entry gets the URL, its
  pending list is cleared, and every node that was pending has the URL.  And the document
  \<open>[foo][bar]\<close>, an empty line, \<open>[bar]: http://example.com\<close> is a paragraph with the linked
  text \<open>foo\<close> whose URL is \<open>http://example.com\<close>, and an empty paragraph for the definition
  line.
\<close>

theorem definition_resolves_pending:
  "((\<forall>c\<in>set name. c \<noteq> NUL \<and> c \<noteq> CHR '']'' \<and> c \<noteq> CHR 0x22) \<and>
    (\<forall>c\<in>set sp0. isspace c) \<and> (\<forall>c\<in>set sp1. isspace c) \<and>
    (\<forall>c\<in>set u. c \<noteq> NUL \<and> \<not> isspace c) \<and> (t = NUL \<or> isspace t \<and> u \<noteq> []) \<and>
    mmd_ref_find refs name = Some i \<and> ref_url (refs ! i) = None \<and> pending (refs ! i) = Some ps
    \<longrightarrow>
    (let lk = mmd_parse_link refs h
                (CHR ''['' # name @ CHR '']'' # sp0 @ CHR '':'' # sp1 @ u @ t # rest) 0
     in lk_text lk = None \<and> lk_url lk = None \<and> lk_refname lk = None \<and>
        ref_url (lk_refs lk ! i) = Some u \<and> pending (lk_refs lk ! i) = None \<and>
        (\<forall>n\<in>set ps. n < length h \<longrightarrow> url (lk_heap lk ! n) = Some u))) \<and>
   nodes_of (mmdLoadFile (fopen (''[foo][bar]'' @ [CHR 0x0A, CHR 0x0A] @ ''[bar]: http://example.com''))) =
     Inr [(MMD_TYPE_DOCUMENT, False, None, None, None),
          (MMD_TYPE_PARAGRAPH, False, None, None, Some 0),
          (MMD_TYPE_LINKED_TEXT, False, Some ''foo'', Some ''http://example.com'', Some 1),
          (MMD_TYPE_PARAGRAPH, False, None, None, Some 0)]"
proof (intro conjI impI, elim conjE)
  assume nm: "\<forall>c\<in>set name. c \<noteq> NUL \<and> c \<noteq> CHR '']'' \<and> c \<noteq> CHR 0x22"
    and s0: "\<forall>c\<in>set sp0. isspace c" and s1: "\<forall>c\<in>set sp1. isspace c"
    and u: "\<forall>c\<in>set u. c \<noteq> NUL \<and> \<not> isspace c"
    and t: "t = NUL \<or> isspace t \<and> u \<noteq> []"
    and f: "mmd_ref_find refs name = Some i"
    and r: "ref_url (refs ! i) = None" "pending (refs ! i) = Some ps"
  have i: "i < length refs"
    using f ref_find_Some by blast
  have lk: "mmd_parse_link refs h
      (CHR ''['' # name @ CHR '']'' # sp0 @ CHR '':'' # sp1 @ u @ t # rest) 0 =
     \<lparr>lk_ptr = 3 + length name + length sp0 + length sp1 + length u,
      lk_text = None, lk_url = None, lk_refname = None,
      lk_line = CHR ''['' # name @ NUL # sp0 @ CHR '':'' # sp1 @ u @ NUL # rest,
      lk_refs = fst (mmd_ref_add refs h None name (Some u)),
      lk_heap = snd (mmd_ref_add refs h None name (Some u))\<rparr>"
    by (rule parse_link_definition[OF nm s0 s1 u t refl])
  have add: "mmd_ref_add refs h None name (Some u) =
      (refs[i := (refs ! i)\<lparr>ref_url := Some u, pending := None\<rparr>],
       fold (\<lambda>p a. upd a p (url_update (\<lambda>_. Some u))) ps h)"
    using f r by (simp add: mmd_ref_add_def pending_nodes_def)
  show "let lk = mmd_parse_link refs h
                (CHR ''['' # name @ CHR '']'' # sp0 @ CHR '':'' # sp1 @ u @ t # rest) 0
     in lk_text lk = None \<and> lk_url lk = None \<and> lk_refname lk = None \<and>
        ref_url (lk_refs lk ! i) = Some u \<and> pending (lk_refs lk ! i) = None \<and>
        (\<forall>n\<in>set ps. n < length h \<longrightarrow> url (lk_heap lk ! n) = Some u)"
    unfolding lk Let_def using i by (simp add: add fold_set_url)
next
  show "nodes_of (mmdLoadFile (fopen (''[foo][bar]'' @ [CHR 0x0A, CHR 0x0A] @ ''[bar]: http://example.com''))) =
     Inr [(MMD_TYPE_DOCUMENT, False, None, None, None),
          (MMD_TYPE_PARAGRAPH, False, None, None, Some 0),
          (MMD_TYPE_LINKED_TEXT, False, Some ''foo'', Some ''http://example.com'', Some 1),
          (MMD_TYPE_PARAGRAPH, False, None, None, Some 0)]"
    by (simp add: run_parser)
qed



theorem definition_resolves_pending_witness:
  "mmd_ref_find [\<lparr>ref_name = ''bar'', ref_url = None, pending = Some [2]\<rparr>] ''bar'' = Some 0 \<and>
   (let lk = mmd_parse_link [\<lparr>ref_name = ''bar'', ref_url = None, pending = Some [2]\<rparr>]
               [zero_node, zero_node, zero_node]
               (''[bar]: http://example.com'' @ [CHR 0x0A, NUL]) 0
    in lk_text lk = None \<and> ref_url (lk_refs lk ! 0) = Some ''http://example.com'' \<and>
       pending (lk_refs lk ! 0) = None \<and> url (lk_heap lk ! 2) = Some ''http://example.com'')"
proof -
  have f: "mmd_ref_find [\<lparr>ref_name = ''bar'', ref_url = None, pending = Some [2]\<rparr>] ''bar'' = Some 0"
    by (simp add: strcasecmp_eq_def)
  have hyp: "(\<forall>c\<in>set ''bar''. c \<noteq> NUL \<and> c \<noteq> CHR '']'' \<and> c \<noteq> CHR 0x22) \<and>
    (\<forall>c\<in>set []. isspace c) \<and> (\<forall>c\<in>set '' ''. isspace c) \<and>
    (\<forall>c\<in>set ''http://example.com''. c \<noteq> NUL \<and> \<not> isspace c) \<and>
    (CHR 0x0A = NUL \<or> isspace (CHR 0x0A) \<and> ''http://example.com'' \<noteq> []) \<and>
    mmd_ref_find [\<lparr>ref_name = ''bar'', ref_url = None, pending = Some [2]\<rparr>] ''bar'' = Some 0 \<and>
    ref_url ([\<lparr>ref_name = ''bar'', ref_url = None, pending = Some [2]\<rparr>] ! 0) = None \<and>
    pending ([\<lparr>ref_name = ''bar'', ref_url = None, pending = Some [2]\<rparr>] ! 0) = Some [2]"
    unfolding f by (simp add: NUL_def isspace_def)
  have "let lk = mmd_parse_link [\<lparr>ref_name = ''bar'', ref_url = None, pending = Some [2]\<rparr>]
               [zero_node, zero_node, zero_node]
               (CHR ''['' # ''bar'' @ CHR '']'' # [] @ CHR '':'' # '' '' @ ''http://example.com'' @ CHR 0x0A # [NUL]) 0
    in lk_text lk = None \<and> lk_url lk = None \<and> lk_refname lk = None \<and>
       ref_url (lk_refs lk ! 0) = Some ''http://example.com'' \<and>
       pending (lk_refs lk ! 0) = None \<and>
       (\<forall>n\<in>set [2]. n < length [zero_node, zero_node, zero_node] \<longrightarrow>
           url (lk_heap lk ! n) = Some ''http://example.com'')"
    by (rule definition_resolves_pending
        [of "''bar''" "[]" "'' ''" "''http://example.com''" "CHR 0x0A"
            "[\<lparr>ref_name = ''bar'', ref_url = None, pending = Some [2]\<rparr>]" 0 "[2]"
            "[zero_node, zero_node, zero_node]" "[NUL]", THEN conjunct1, THEN mp, OF hyp])
  then show ?thesis
    using f by (simp add: Let_def)
qed

text \<open>
  C2.  The loop at the end of \<open>mmdLoadFile\<close> gives a node that is still pending in a
  reference entry the name of that reference as URL (for a node that no later entry holds
  as pending too).  And the document \<open>[foo][missing]\<close> is a paragraph with the linked text
  \<open>foo\<close> whose URL is \<open>missing\<close>.
\<close>

theorem undefined_reference_gets_name:
  "(pending r = Some ps \<and> n \<in> set ps \<and> n < length h \<and>
    (\<forall>r'\<in>set rs2. n \<notin> set (pending_nodes r'))
    \<longrightarrow> url (fold resolve_pending (rs1 @ r # rs2) h ! n) = Some (ref_name r)) \<and>
   nodes_of (mmdLoadFile (fopen ''[foo][missing]'')) =
     Inr [(MMD_TYPE_DOCUMENT, False, None, None, None),
          (MMD_TYPE_PARAGRAPH, False, None, None, Some 0),
          (MMD_TYPE_LINKED_TEXT, False, Some ''foo'', Some ''missing'', Some 1)]"
proof (intro conjI impI)
  assume a: "pending r = Some ps \<and> n \<in> set ps \<and> n < length h \<and>
    (\<forall>r'\<in>set rs2. n \<notin> set (pending_nodes r'))"
  then have "fold resolve_pending rs2 (resolve_pending r (fold resolve_pending rs1 h)) ! n =
      resolve_pending r (fold resolve_pending rs1 h) ! n"
    by (intro fold_resolve_pending_other) auto
  with a show "url (fold resolve_pending (rs1 @ r # rs2) h ! n) = Some (ref_name r)"
    by (simp add: resolve_pending_nth pending_nodes_def)
next
  show "nodes_of (mmdLoadFile (fopen ''[foo][missing]'')) =
     Inr [(MMD_TYPE_DOCUMENT, False, None, None, None),
          (MMD_TYPE_PARAGRAPH, False, None, None, Some 0),
          (MMD_TYPE_LINKED_TEXT, False, Some ''foo'', Some ''missing'', Some 1)]"
    by (simp add: run_parser)
qed

theorem undefined_reference_gets_name_witness:
  "url (fold resolve_pending
          [\<lparr>ref_name = ''other'', ref_url = Some ''u'', pending = None\<rparr>,
           \<lparr>ref_name = ''missing'', ref_url = None, pending = Some [1]\<rparr>]
          [zero_node, zero_node] ! 1) = Some ''missing''"
  using undefined_reference_gets_name
    [of "\<lparr>ref_name = ''missing'', ref_url = None, pending = Some [1]\<rparr>" "[1]" 1
        "[zero_node, zero_node]" "[]"
        "[\<lparr>ref_name = ''other'', ref_url = Some ''u'', pending = None\<rparr>]"]
  by simp

section \<open>Inline constructs\<close>

text \<open>
  C5 as stated fails.  For the line \<open>*oops\<close>, with or without the newline, the parse has
  no normal-text node and no node with the text \<open>*oops\<close>.
\<close>

theorem unterminated_emphasis_counterexample:
  "(case mmdLoadFile (fopen ''*oops'') of
      Inl e \<Rightarrow> False
    | Inr (h, root) \<Rightarrow>
        MMD_TYPE_NORMAL_TEXT \<notin> set (map node_type h) \<and> Some ''*oops'' \<notin> set (map node_text h)) \<and>
   (case mmdLoadFile (fopen (''*oops'' @ [CHR 0x0A])) of
      Inl e \<Rightarrow> False
    | Inr (h, root) \<Rightarrow>
        MMD_TYPE_NORMAL_TEXT \<notin> set (map node_type h) \<and> Some ''*oops'' \<notin> set (map node_text h))"
  by (simp add: run_parser)

text \<open>
  C5, amended.  The line \<open>*oops\<close>, with or without the newline, parses without error, and
  the parse is a paragraph whose only child is an emphasized-text node with the text
  \<open>oops\<close>.
\<close>

theorem unterminated_emphasis_is_emphasized:
  "nodes_of (mmdLoadFile (fopen ''*oops'')) =
     Inr [(MMD_TYPE_DOCUMENT, False, None, None, None),
          (MMD_TYPE_PARAGRAPH, False, None, None, Some 0),
          (MMD_TYPE_EMPHASIZED_TEXT, False, Some ''oops'', None, Some 1)] \<and>
   nodes_of (mmdLoadFile (fopen (''*oops'' @ [CHR 0x0A]))) =
     Inr [(MMD_TYPE_DOCUMENT, False, None, None, None),
          (MMD_TYPE_PARAGRAPH, False, None, None, Some 0),
          (MMD_TYPE_EMPHASIZED_TEXT, False, Some ''oops'', None, Some 1)]"
  by (simp add: run_parser)

section \<open>The table lookahead decides on one line\<close>

text \<open>
  The characters of a separator row as C8 is amended: \<open>:\<close>, \<open>-\<close>, \<open>|\<close>, space, tab, line
  feed and carriage return, after an optional \<open>>\<close> as the very first character.  Form feed
  and vertical tab, which \<open>isspace\<close> takes for white space, are not among them.
\<close>

definition sep_char :: "char \<Rightarrow> bool" where
  "sep_char c = (c = CHR '':'' \<or> c = CHR ''-'' \<or> c = CHR ''|'' \<or> c = CHR '' '' \<or> c = CHR 0x09 \<or>
                 c = CHR 0x0A \<or> c = CHR 0x0D)"

definition separator_row :: "string \<Rightarrow> bool" where
  "separator_row s =
    (case s of [] \<Rightarrow> True | c # cs \<Rightarrow> (c = CHR ''>'' \<or> sep_char c) \<and> list_all sep_char cs)"

lemma table_scan_stop: "\<not> (ptr < length line \<and> line ! ptr \<noteq> NUL) \<Longrightarrow> table_scan line ptr = ptr"
  by (subst table_scan.simps, subst if_not_P) auto

lemma table_scan_tail:
  "0 < ptr \<Longrightarrow> (peek line (table_scan line ptr) = NUL) = list_all sep_char (cstr line ptr)"
proof (induction line ptr rule: table_scan.induct)
  case (1 line ptr)
  show ?case
  proof (cases "ptr < length line \<and> line ! ptr \<noteq> NUL")
    case False
    then have "table_scan line ptr = ptr"
      by (rule table_scan_stop)
    moreover have "peek line ptr = NUL"
      using False by (auto simp: peek_def)
    moreover have "cstr line ptr = []"
      using False by (cases "ptr < length line") (auto simp: cstr_def Cons_nth_drop_Suc[symmetric])
    ultimately show ?thesis
      by simp
  next
    case True
    then have d: "drop ptr line = line ! ptr # drop (Suc ptr) line"
      by (simp add: Cons_nth_drop_Suc)
    show ?thesis
    proof (cases "sep_char (line ! ptr)")
      case s: True
      with True "1.prems" have "table_scan line ptr = table_scan line (ptr + 1)"
        by (subst table_scan.simps) (auto simp: sep_char_def)
      moreover have "(peek line (table_scan line (ptr + 1)) = NUL) = list_all sep_char (cstr line (ptr + 1))"
        using True "1.prems" s by (intro "1.IH"(2)) (auto simp: sep_char_def)
      ultimately show ?thesis
        using True s by (simp add: cstr_def d)
    next
      case s: False
      with True "1.prems" have "table_scan line ptr = ptr"
        by (subst table_scan.simps) (auto simp: sep_char_def)
      with True s show ?thesis
        by (simp add: cstr_def d peek_def)
    qed
  qed
qed

lemma table_scan_row: "(peek line (table_scan line 0) = NUL) = separator_row (cstr line 0)"
proof (cases "0 < length line \<and> line ! 0 \<noteq> NUL")
  case False
  then have "table_scan line 0 = 0"
    by (rule table_scan_stop)
  moreover have "peek line 0 = NUL"
    using False by (auto simp: peek_def)
  moreover have "cstr line 0 = []"
    using False by (cases line) (auto simp: cstr_def)
  ultimately show ?thesis
    by (simp add: separator_row_def)
next
  case True
  then obtain c cs where l: "line = c # cs" and c: "c \<noteq> NUL"
    by (cases line) auto
  have t: "cstr line (Suc 0) = takeWhile (\<lambda>x. x \<noteq> NUL) cs"
    by (simp add: l cstr_def)
  show ?thesis
  proof (cases "c = CHR ''>'' \<or> sep_char c")
    case s: True
    with l c have "table_scan line 0 = table_scan line (Suc 0)"
      by (subst table_scan.simps) (auto simp: sep_char_def)
    with table_scan_tail[of "Suc 0" line] s l c show ?thesis
      by (simp add: separator_row_def cstr_def)
  next
    case s: False
    with l c have "table_scan line 0 = 0"
      by (subst table_scan.simps) (auto simp: sep_char_def)
    with s l c show ?thesis
      by (simp add: separator_row_def cstr_def peek_def)
  qed
qed

text \<open>
  C8 as stated fails.  The next line \<open>|\<close>, form feed, \<open>|\<close>, newline holds only \<open>|\<close> and
  white space (form feed is white space for \<open>isspace\<close>), and \<open>mmd_is_table\<close> answers no.
\<close>

theorem table_lookahead_counterexample:
  "map_option fst (fgets (fopen (''|'' @ [CHR 0x0C] @ ''|'' @ [CHR 0x0A]))) =
     Some (''|'' @ [CHR 0x0C] @ ''|'' @ [CHR 0x0A, NUL]) \<and>
   list_all (\<lambda>c. c = CHR ''|'' \<or> isspace c) (''|'' @ [CHR 0x0C] @ ''|'' @ [CHR 0x0A]) \<and>
   \<not> fst (mmd_is_table (fopen (''|'' @ [CHR 0x0C] @ ''|'' @ [CHR 0x0A])))"
  by (simp add: mmd_is_table_def fopen_def fgets_def table_scan.simps peek_def NUL_def isspace_def)

text \<open>
  C8, amended.  \<open>mmd_is_table\<close> leaves the file as it found it (the position is saved and
  restored); its answer is positive exactly when one more \<open>fgets\<close> gives a line, and the
  string in that line holds only \<open>:\<close>, \<open>-\<close>, \<open>|\<close>, space, tab, line feed and carriage
  return, after an optional \<open>>\<close> as its first character; and the condition of the table
  branch consults it only for a line with a \<open>|\<close> while \<open>current\<close> is not a table.
\<close>

theorem table_lookahead:
  "snd (mmd_is_table fp) = fp \<and>
   fst (mmd_is_table fp) =
     (case fgets fp of None \<Rightarrow> False | Some (line, fp') \<Rightarrow> separator_row (cstr line 0)) \<and>
   table_line_test line lineptr h current fp =
     (if strchr line lineptr (CHR ''|'') = None then (False, fp)
      else if node_type (h ! current) = MMD_TYPE_TABLE then (True, fp)
      else mmd_is_table fp)"
proof (intro conjI)
  show "snd (mmd_is_table fp) = fp"
    by (rule mmd_is_table_restores)
  show "fst (mmd_is_table fp) =
     (case fgets fp of None \<Rightarrow> False | Some (line, fp') \<Rightarrow> separator_row (cstr line 0))"
    by (auto simp: mmd_is_table_def table_scan_row split: option.splits)
  show "table_line_test line lineptr h current fp =
     (if strchr line lineptr (CHR ''|'') = None then (False, fp)
      else if node_type (h ! current) = MMD_TYPE_TABLE then (True, fp)
      else mmd_is_table fp)"
    by (simp add: table_line_test_def)
qed

section \<open>Thematic breaks\<close>

lemma cstr_whole: "NUL \<notin> set xs \<Longrightarrow> cstr (pre @ xs @ [NUL]) (length pre) = xs"
  using cstr_at[where pre=pre and xs=xs and ys="[]"] by simp

text \<open>
  C7 as stated fails.  The line \<open>- - -\<close> is an unordered list item, not a thematic break;
  \<open>---\<close> as the first line of a document opens the metadata block; \<open>---\<close> behind four
  spaces at the start of a document is a line of an indented code block; and \<open>--\<close> is a
  paragraph.
\<close>

theorem thematic_break_counterexample:
  "nodes_of (mmdLoadFile (fopen (''- - -'' @ [CHR 0x0A]))) =
     Inr [(MMD_TYPE_DOCUMENT, False, None, None, None),
          (MMD_TYPE_UNORDERED_LIST, False, None, None, Some 0),
          (MMD_TYPE_LIST_ITEM, False, None, None, Some 1),
          (MMD_TYPE_NORMAL_TEXT, False, Some ''-'', None, Some 2),
          (MMD_TYPE_NORMAL_TEXT, True, Some ''-'', None, Some 2)] \<and>
   nodes_of (mmdLoadFile (fopen (''---'' @ [CHR 0x0A]))) =
     Inr [(MMD_TYPE_DOCUMENT, False, None, None, None),
          (MMD_TYPE_METADATA, False, None, None, Some 0)] \<and>
   nodes_of (mmdLoadFile (fopen (''    ---'' @ [CHR 0x0A]))) =
     Inr [(MMD_TYPE_DOCUMENT, False, None, None, None),
          (MMD_TYPE_CODE_BLOCK, False, None, None, Some 0),
          (MMD_TYPE_CODE_TEXT, False, Some (''---'' @ [CHR 0x0A]), None, Some 1)] \<and>
   nodes_of (mmdLoadFile (fopen (''--'' @ [CHR 0x0A]))) =
     Inr [(MMD_TYPE_DOCUMENT, False, None, None, None),
          (MMD_TYPE_PARAGRAPH, False, None, None, Some 0),
          (MMD_TYPE_NORMAL_TEXT, False, Some ''--'', None, Some 1)]"
  by (simp add: run_parser)

text \<open>
  C7, amended.  While no block is active, a line that after its leading white space
  starts with three times the same character \<open>-\<close>, \<open>*\<close> or \<open>_\<close> and goes on with only that
  character and white space adds a thematic-break node under \<open>current\<close> and is finished,
  provided that it is not an indented code line (four or more columns of white space while
  \<open>current\<close> is the root or a code block) and does not open the metadata block (\<open>---\<close>
  while the root has no child).
\<close>

theorem thematic_break_line:
  assumes blk: "ld_block st = None"
    and ch: "ch = CHR ''-'' \<or> ch = CHR ''*'' \<or> ch = CHR ''_''"
    and ws: "\<forall>c\<in>set ws. isspace c"
    and rest: "\<forall>c\<in>set rest. c = ch \<or> isspace c"
    and line: "line = ws @ [ch, ch, ch] @ rest @ [NUL]"
    and ind: "length ws < 4 \<or>
        (ld_current st \<noteq> ld_root st \<and> node_type (ld_heap st ! ld_current st) \<noteq> MMD_TYPE_CODE_BLOCK)"
    and meta: "ch = CHR ''-'' \<longrightarrow> first_child (ld_heap st ! ld_root st) \<noteq> None"
  shows "load_line st line fp =
      Inr (st\<lparr>ld_block := None,
              ld_heap := fst (mmd_add (ld_heap st) (Some (ld_current st)) MMD_TYPE_THEMATIC_BREAK
                               False None None)\<rparr>, fp)"
proof -
  have chs: "\<not> isspace ch" "ch \<noteq> NUL" "ch \<noteq> CHR 0x60"
    using ch by (auto simp: isspace_def NUL_def)
  have nul: "\<not> isspace NUL" "isspace c \<Longrightarrow> c \<noteq> NUL" for c
    by (auto simp: isspace_def NUL_def)
  define p where "p = length ws"
  have a: "skip_while isspace line 0 = p"
    unfolding line p_def
    using skip_while_at[where pre="[]" and xs=ws and P=isspace and y=ch and ys="[ch, ch] @ rest @ [NUL]", OF _ ws chs(1)]
    by simp
  have b: "peek line p = ch"
    unfolding line p_def using peek_at[where pre=ws and y=ch and ys="[ch, ch] @ rest @ [NUL]"] by simp
  have nn: "NUL \<notin> set ([ch, ch, ch] @ rest)"
    using rest chs nul by auto
  have c: "cstr line p = [ch, ch, ch] @ rest"
    unfolding line p_def using cstr_whole[OF nn, of ws] by simp
  have d: "strncmp_eq line p lit = (lit = [ch, ch, ch])" if "length lit = 3" for lit
    using that by (auto simp: strncmp_eq_def c)
  have e: "indent_or_fence st line p = None"
    using ind blk b chs by (auto simp: indent_or_fence_def Let_def p_def)
  have rest': "\<forall>c\<in>set rest. c \<noteq> NUL \<and> (c = ch \<or> isspace c)"
    using rest chs nul by auto
  have f: "skip_while (\<lambda>c. c \<noteq> NUL \<and> (c = ch \<or> isspace c)) line (p + 3) = p + 3 + length rest"
    unfolding line p_def
    using skip_while_at[where pre="ws @ [ch, ch, ch]" and xs=rest
        and P="\<lambda>c. c \<noteq> NUL \<and> (c = ch \<or> isspace c)" and y=NUL and ys="[]", OF _ rest']
    by (simp add: numeral_3_eq_3)
  have g: "peek line (p + 3 + length rest) = NUL"
    unfolding line p_def
    using peek_at[where pre="ws @ [ch, ch, ch] @ rest" and y=NUL and ys="[]"] by (simp add: add.assoc numeral_3_eq_3)
  have h: "code_meta_rule st line p fp =
      Done (st\<lparr>ld_block := None,
               ld_heap := fst (mmd_add (ld_heap st) (Some (ld_current st)) MMD_TYPE_THEMATIC_BREAK
                                False None None)\<rparr>) fp"
    using blk ch meta by (auto simp: code_meta_rule_def Let_def d b f g)
  show ?thesis
    by (simp add: load_line_def a e h)
qed

theorem thematic_break_line_witness:
  "load_line (start_state [zero_node] 0) (''*** * *'' @ [CHR 0x0A, NUL]) (fopen []) =
     Inr ((start_state [zero_node] 0)
            \<lparr>ld_block := None,
             ld_heap := fst (mmd_add [zero_node] (Some 0) MMD_TYPE_THEMATIC_BREAK False None None)\<rparr>,
          fopen [])"
  using thematic_break_line
    [of "start_state [zero_node] 0" "CHR ''*''" "[]" "'' * *'' @ [CHR 0x0A]"
        "''*** * *'' @ [CHR 0x0A, NUL]" "fopen []"]
  by (simp add: start_state_def isspace_def)


section \<open>Hard breaks\<close>

text \<open>The number of hard-break nodes in a heap.\<close>

definition hard_breaks :: "heap \<Rightarrow> nat" where
  "hard_breaks h = length (filter (\<lambda>t. t = MMD_TYPE_HARD_BREAK) (map node_type h))"

lemma types_upd:
  "(\<And>n. node_type (g n) = node_type n) \<Longrightarrow> map node_type (upd h i g) = map node_type h"
proof (cases "i < length h")
  case True
  assume "\<And>n. node_type (g n) = node_type n"
  with True show ?thesis
    by (simp add: upd_def map_update list_update_same_conv)
next
  case False
  then have "h[i := g (h ! i)] = h"
    by (intro list_update_beyond) simp
  then show ?thesis
    by (simp add: upd_def)
qed

lemma types_mmd_add: "map node_type (fst (mmd_add h par ty ws txt u)) = map node_type h @ [ty]"
proof -
  have a: "map node_type (upd h' (length h) (node_type_update (\<lambda>_. ty))) = map node_type h @ [ty]"
    if "map node_type h' = map node_type h @ [t0]" for h' t0
  proof -
    from that have l: "length h' = Suc (length h)"
      by (metis length_append_singleton length_map)
    then have "map node_type (upd h' (length h) (node_type_update (\<lambda>_. ty))) =
        (map node_type h')[length h := ty]"
      by (simp add: upd_def map_update)
    with that show ?thesis by (simp add: list_update_append)
  qed
  show ?thesis
    unfolding mmd_add_def Let_def
    by (auto simp: types_upd a[where ?t0.0="node_type zero_node"] split: option.splits)
qed

lemma types_fold_url:
  "map node_type (fold (\<lambda>p a. upd a p (url_update (\<lambda>_. v))) ps h) = map node_type h"
  by (induction ps arbitrary: h) (simp_all add: types_upd)

lemma types_ref_add: "map node_type (snd (mmd_ref_add refs h node name u)) = map node_type h"
  by (auto simp: mmd_ref_add_def ref_link_def Let_def types_upd types_fold_url split: option.splits)

lemma types_parse_link: "map node_type (lk_heap (mmd_parse_link refs h buf p)) = map node_type h"
  by (auto simp: mmd_parse_link_def Let_def split_beta types_ref_add split: scan.splits)

lemma hb_add [simp]:
  "hard_breaks (fst (mmd_add h par ty ws txt u)) =
     hard_breaks h + (if ty = MMD_TYPE_HARD_BREAK then 1 else 0)"
  by (simp add: hard_breaks_def types_mmd_add)

lemma hb_ref_add [simp]: "hard_breaks (snd (mmd_ref_add refs h node name u)) = hard_breaks h"
  by (simp add: hard_breaks_def types_ref_add)

lemma hb_parse_link [simp]: "hard_breaks (lk_heap (mmd_parse_link refs h buf p)) = hard_breaks h"
  by (simp add: hard_breaks_def types_parse_link)



lemma hb_add_run [simp]:
  "pi_type s \<noteq> MMD_TYPE_HARD_BREAK \<Longrightarrow> hard_breaks (add_run par s t) = hard_breaks (pi_heap s)"
  by (simp add: add_run_def)

lemma hb_flush_text [simp]:
  "pi_type s \<noteq> MMD_TYPE_HARD_BREAK \<Longrightarrow>
     hard_breaks (pi_heap (flush_text par s)) = hard_breaks (pi_heap s)"
  by (simp add: flush_text_def split: option.splits)

lemma hb_flush_cut [simp]:
  "pi_type s \<noteq> MMD_TYPE_HARD_BREAK \<Longrightarrow>
     hard_breaks (pi_heap (flush_cut par r s)) = hard_breaks (pi_heap s)"
  by (simp add: flush_cut_def Let_def split: option.splits)














section \<open>Collecting the text under a node\<close>

text \<open>The accessors of \<open>mmd.c\<close> answer \<open>NULL\<close> for a \<open>NULL\<close> node.\<close>

definition mmdGetFirstChild :: "heap \<Rightarrow> nat option \<Rightarrow> nat option" where
  "mmdGetFirstChild h node = (case node of None \<Rightarrow> None | Some n \<Rightarrow> first_child (h ! n))"

definition mmdGetNextSibling :: "heap \<Rightarrow> nat option \<Rightarrow> nat option" where
  "mmdGetNextSibling h node = (case node of None \<Rightarrow> None | Some n \<Rightarrow> next_sibling (h ! n))"

definition mmdGetParent :: "heap \<Rightarrow> nat option \<Rightarrow> nat option" where
  "mmdGetParent h node = (case node of None \<Rightarrow> None | Some n \<Rightarrow> parent (h ! n))"

text \<open>
  The inner \<open>while\<close> of \<open>mmdCopyAllText\<close>: up the parents while there is no next sibling.
  On a heap whose parent links run in a circle it does not return (\<open>None\<close>).
\<close>

partial_function (option) climb :: "heap \<Rightarrow> nat option \<Rightarrow> nat option \<Rightarrow> nat option option" where
  "climb h node next =
    (if next \<noteq> None \<and> next \<noteq> node \<and> mmdGetNextSibling h next = None
     then climb h node (mmdGetParent h next)
     else Some next)"

text \<open>\<open>Find the next logical node\<close>: the value \<open>current\<close> gets at the end of the loop body.\<close>

definition next_node :: "heap \<Rightarrow> nat option \<Rightarrow> nat option \<Rightarrow> nat option option" where
  "next_node h node current =
    (case mmdGetNextSibling h current of
       Some n \<Rightarrow> Some (Some n)
     | None \<Rightarrow>
        (case climb h node (mmdGetParent h current) of
           None \<Rightarrow> None
         | Some next \<Rightarrow> Some (if next \<noteq> node then mmdGetNextSibling h next else next)))"

text \<open>
  Appending the text of one node.  \<open>alloc k\<close> says that a request for \<open>k\<close> bytes
  (\<open>malloc\<close> the first time, \<open>realloc\<close> later) is met; \<open>None\<close> is the \<open>return (NULL)\<close> when
  it is not.  \<open>all\<close> is the bytes written so far (\<open>allptr\<close> stands behind them), \<open>None\<close>
  while the buffer is \<open>NULL\<close>.
\<close>

definition append_text ::
  "(nat \<Rightarrow> bool) \<Rightarrow> bool \<Rightarrow> string \<Rightarrow> string option \<Rightarrow> nat \<Rightarrow> (string option \<times> nat) option" where
  "append_text alloc ws text all allsize =
    (let textlen = length text;
         allsize' = (if allsize = 0 then textlen + (if ws then 1 else 0) + 1
                     else allsize + (textlen + (if ws then 1 else 0)))
     in if alloc allsize' then
          Some (Some ((case all of None \<Rightarrow> [] | Some a \<Rightarrow> a) @ (if ws then '' '' else []) @ text),
                allsize')
        else None)"

text \<open>
  The \<open>while (current != node)\<close> loop and the return of \<open>mmdCopyAllText\<close>.  The result is
  \<open>None\<close> when the loop does not end, \<open>Inl NullDeref\<close> for the read of \<open>current->text\<close>
  through \<open>NULL\<close>, \<open>Inr None\<close> for the return of \<open>NULL\<close>, and \<open>Inr (Some s)\<close> for the return
  of the string \<open>s\<close>.
\<close>

partial_function (option) copy_loop ::
  "(nat \<Rightarrow> bool) \<Rightarrow> heap \<Rightarrow> nat option \<Rightarrow> nat option \<Rightarrow> string option \<Rightarrow> nat \<Rightarrow>
   (error + string option) option" where
  "copy_loop alloc h node current all allsize =
    (if current = node then Some (Inr all)
     else
       (case current of
          None \<Rightarrow> Some (Inl NullDeref)
        | Some c \<Rightarrow>
           (case (case node_text (h ! c) of
                    None \<Rightarrow> Some (all, allsize)
                  | Some text \<Rightarrow> append_text alloc (whitespace (h ! c)) text all allsize) of
              None \<Rightarrow> Some (Inr None)
            | Some (all', allsize') \<Rightarrow>
               (case next_node h node current of
                  None \<Rightarrow> None
                | Some next \<Rightarrow> copy_loop alloc h node next all' allsize'))))"

definition mmdCopyAllText :: "(nat \<Rightarrow> bool) \<Rightarrow> heap \<Rightarrow> nat option \<Rightarrow> (error + string option) option" where
  "mmdCopyAllText alloc h node = copy_loop alloc h node (mmdGetFirstChild h node) None 0"

text \<open>
  \<open>sibling_chain h p cs\<close>: the nodes reached from the pointer \<open>p\<close> along \<open>next_sibling\<close>, up
  to the \<open>NULL\<close> that ends the chain, are \<open>cs\<close> in this order.
\<close>

fun sibling_chain :: "heap \<Rightarrow> nat option \<Rightarrow> nat list \<Rightarrow> bool" where
  "sibling_chain h p [] = (p = None)"
| "sibling_chain h p (c # cs) = (p = Some c \<and> sibling_chain h (next_sibling (h ! c)) cs)"

text \<open>
  What the loop accumulates over a list of white-space flags and texts, from the bytes
  \<open>all\<close> and the size \<open>allsize\<close> reached so far.
\<close>

fun gather :: "(nat \<Rightarrow> bool) \<Rightarrow> (bool \<times> string option) list \<Rightarrow> string option \<Rightarrow> nat \<Rightarrow> string option" where
  "gather alloc [] all allsize = all"
| "gather alloc ((ws, None) # xs) all allsize = gather alloc xs all allsize"
| "gather alloc ((ws, Some t) # xs) all allsize =
    (case append_text alloc ws t all allsize of
       None \<Rightarrow> None
     | Some (all', allsize') \<Rightarrow> gather alloc xs all' allsize')"

definition flag_text :: "heap \<Rightarrow> nat \<Rightarrow> bool \<times> string option" where
  "flag_text h c = (whitespace (h ! c), node_text (h ! c))"

lemma copy_loop_chain:
  assumes "sibling_chain h (Some c) (c # cs)"
    and "parent (h ! last (c # cs)) = Some n"
    and "n \<notin> set (c # cs)"
  shows "copy_loop alloc h (Some n) (Some c) all allsize =
     Some (Inr (gather alloc (map (flag_text h) (c # cs)) all allsize))"
  using assms
proof (induction cs arbitrary: c all allsize)
  case Nil
  then have nx: "next_node h (Some n) (Some c) = Some (Some n)"
    by (simp add: next_node_def mmdGetNextSibling_def mmdGetParent_def climb.simps)
  have stop: "copy_loop alloc h (Some n) (Some n) a b = Some (Inr a)" for a b
    by (subst copy_loop.simps) simp
  from Nil show ?case
    by (subst copy_loop.simps)
       (auto simp: nx stop flag_text_def split: option.splits)
next
  case (Cons d cs)
  then have nx: "next_node h (Some n) (Some c) = Some (Some d)"
    by (simp add: next_node_def mmdGetNextSibling_def)
  have ih: "copy_loop alloc h (Some n) (Some d) a b =
      Some (Inr (gather alloc (map (flag_text h) (d # cs)) a b))" for a b
    using Cons.prems by (intro Cons.IH) auto
  from Cons.prems show ?case
    by (subst copy_loop.simps)
       (auto simp: nx ih flag_text_def split: option.splits)
qed


text \<open>
  A child carries text when its \<open>text\<close> is not \<open>NULL\<close>; its piece of the result is its text,
  behind a space when its white-space flag is set.
\<close>

definition has_text :: "bool \<times> string option \<Rightarrow> bool" where
  "has_text x = (snd x \<noteq> None)"

definition piece :: "bool \<times> string option \<Rightarrow> string" where
  "piece x = (case snd x of None \<Rightarrow> [] | Some t \<Rightarrow> (if fst x then '' '' else []) @ t)"

lemma gather_no_text: "\<not> list_ex has_text xs \<Longrightarrow> gather alloc xs all allsize = all"
  by (induction alloc xs all allsize rule: gather.induct) (auto simp: has_text_def)

lemma gather_alloc_ok:
  "\<forall>k. alloc k \<Longrightarrow> list_ex has_text xs \<Longrightarrow>
   gather alloc xs all allsize =
     Some ((case all of None \<Rightarrow> [] | Some a \<Rightarrow> a) @ concat (map piece xs))"
proof (induction alloc xs all allsize rule: gather.induct)
  case (1 alloc all allsize)
  then show ?case by simp
next
  case (2 alloc ws xs all allsize)
  then show ?case by (simp add: has_text_def piece_def)
next
  case (3 alloc ws t xs all allsize)
  show ?case
  proof (cases "list_ex has_text xs")
    case True
    with 3 show ?thesis
      by (simp add: append_text_def piece_def Let_def)
  next
    case False
    then have "concat (map piece xs) = []"
      by (induction xs) (auto simp: has_text_def piece_def)
    with False 3(2) show ?thesis
      by (simp add: append_text_def piece_def Let_def gather_no_text)
  qed
qed


lemma copy_children:
  assumes "sibling_chain h (first_child (h ! n)) cs" and "cs \<noteq> []"
    and "parent (h ! last cs) = Some n" and "n \<notin> set cs"
  shows "mmdCopyAllText alloc h (Some n) = Some (Inr (gather alloc (map (flag_text h) cs) None 0))"
proof -
  from assms(1,2) obtain c cs' where cs: "cs = c # cs'" and f: "first_child (h ! n) = Some c"
    by (cases cs) auto
  with assms have "copy_loop alloc h (Some n) (Some c) None 0 =
      Some (Inr (gather alloc (map (flag_text h) (c # cs')) None 0))"
    by (intro copy_loop_chain) auto
  with cs f show ?thesis
    by (simp add: mmdCopyAllText_def mmdGetFirstChild_def)
qed

text \<open>
  A paragraph (node 0) whose children are leaves with the given white-space flags and
  texts, built by \<open>mmd_add\<close>.
\<close>

definition text_leaves :: "(bool \<times> string option) list \<Rightarrow> heap" where
  "text_leaves xs =
    fold (\<lambda>x h. fst (mmd_add h (Some 0) MMD_TYPE_NORMAL_TEXT (fst x) (snd x) None)) xs
      (fst (mmd_add [] None MMD_TYPE_PARAGRAPH False None None))"

lemmas run_copy =
  mmdGetFirstChild_def mmdGetNextSibling_def mmdGetParent_def climb.simps next_node_def
  append_text_def copy_loop.simps mmdCopyAllText_def text_leaves_def mmd_add_def upd_def
  zero_node_def Let_def

text \<open>
  C3 as stated fails.  A single child \<open>Hello\<close> whose white-space flag is set gives the
  string with a space in front, although the child is the first that carries text.  A text
  below a child (node 2 under node 1 under node 0) is not collected: the result for node 0
  is \<open>NULL\<close>.  And for a node without children the loop reads \<open>current->text\<close> through
  \<open>NULL\<close>.
\<close>

theorem collect_text_counterexample:
  "mmdCopyAllText (\<lambda>k. True) (text_leaves [(True, Some ''Hello'')]) (Some 0) =
     Some (Inr (Some '' Hello'')) \<and>
   mmdCopyAllText (\<lambda>k. True)
       (fst (mmd_add (text_leaves [(False, None)]) (Some 1) MMD_TYPE_NORMAL_TEXT False (Some ''x'') None))
       (Some 0) = Some (Inr None) \<and>
   mmdCopyAllText (\<lambda>k. True) (text_leaves []) (Some 0) = Some (Inl NullDeref)"
  by (simp add: run_copy)

text \<open>
  C3, amended.  For a node \<open>n\<close> with at least one child, whose children \<open>cs\<close> (the chain
  from \<open>first_child\<close>, the last of them with parent \<open>n\<close>) are leaves, and with every
  allocation met, \<open>mmdCopyAllText\<close> returns the texts of the children that carry text, in
  order, each behind one space when its white-space flag is set, the first one too; it
  returns \<open>NULL\<close> when no child carries text.
\<close>

theorem collect_text_children:
  assumes "sibling_chain h (first_child (h ! n)) cs" and "cs \<noteq> []"
    and "parent (h ! last cs) = Some n" and "n \<notin> set cs"
    and "\<forall>c\<in>set cs. first_child (h ! c) = None"
    and "\<forall>k. alloc k"
  shows "mmdCopyAllText alloc h (Some n) =
     Some (Inr (if list_ex has_text (map (flag_text h) cs)
                then Some (concat (map piece (map (flag_text h) cs))) else None))"
  using copy_children[OF assms(1-4), of alloc] assms(6)
  by (simp add: gather_alloc_ok gather_no_text)

theorem collect_text_children_witness:
  "mmdCopyAllText (\<lambda>k. True) (text_leaves [(False, Some ''Hello''), (True, Some ''world'')]) (Some 0) =
     Some (Inr (Some ''Hello world'')) \<and>
   mmdCopyAllText (\<lambda>k. True) (text_leaves [(False, Some ''Hello''), (False, Some ''world'')]) (Some 0) =
     Some (Inr (Some ''Helloworld''))"
proof -
  have a: "text_leaves [(False, Some ''Hello''), (w, Some ''world'')] =
      [\<lparr>node_type = MMD_TYPE_PARAGRAPH, whitespace = False, node_text = None, url = None,
        parent = None, first_child = Some 1, last_child = Some 2, prev_sibling = None,
        next_sibling = None\<rparr>,
       \<lparr>node_type = MMD_TYPE_NORMAL_TEXT, whitespace = False, node_text = Some ''Hello'', url = None,
        parent = Some 0, first_child = None, last_child = None, prev_sibling = None,
        next_sibling = Some 2\<rparr>,
       \<lparr>node_type = MMD_TYPE_NORMAL_TEXT, whitespace = w, node_text = Some ''world'', url = None,
        parent = Some 0, first_child = None, last_child = None, prev_sibling = Some 1,
        next_sibling = None\<rparr>]" for w
    by (simp add: text_leaves_def mmd_add_def upd_def zero_node_def)
  show ?thesis
    using collect_text_children[of "text_leaves [(False, Some ''Hello''), (True, Some ''world'')]" 0
        "[1, 2]" "\<lambda>k. True"]
      collect_text_children[of "text_leaves [(False, Some ''Hello''), (False, Some ''world'')]" 0
        "[1, 2]" "\<lambda>k. True"]
    by (simp add: a flag_text_def has_text_def piece_def)
qed




section \<open>Consistency of the tree links\<close>

text \<open>
  What \<open>mmd_add\<close> leaves in the heap when the parent pointer, if any, and the parent's
  \<open>last_child\<close> are nodes of the heap: one more node, and in the old nodes only the links
  that the source assigns.
\<close>

lemma length_mmd_add [simp]: "length (fst (mmd_add h par ty ws tx u)) = Suc (length h)"
  by (simp add: mmd_add_def upd_def Let_def split: option.splits)

lemma snd_mmd_add [simp]: "snd (mmd_add h par ty ws tx u) = length h"
  by (simp add: mmd_add_def Let_def)

lemma mmd_add_new:
  assumes "\<forall>p. par = Some p \<longrightarrow>
             p < length h \<and> (\<forall>l. last_child (h ! p) = Some l \<longrightarrow> l < length h)"
  shows "fst (mmd_add h par ty ws tx u) ! length h =
     \<lparr>node_type = ty, whitespace = ws, node_text = tx, url = u, parent = par,
      first_child = None, last_child = None,
      prev_sibling = (case par of None \<Rightarrow> None
                      | Some p \<Rightarrow> if p < length h then last_child (h ! p) else None),
      next_sibling = None\<rparr>"
  using assms
  by (cases par; cases "tx"; cases u)
     (auto simp: mmd_add_def upd_def Let_def zero_node_def nth_append nth_list_update
           split: option.splits)

lemma mmd_add_old:
  assumes "p < length h" and "\<forall>l. last_child (h ! p) = Some l \<longrightarrow> l < length h"
    and "i < length h"
  shows "fst (mmd_add h (Some p) ty ws tx u) ! i =
     (h ! i)\<lparr>next_sibling := (if last_child (h ! p) = Some i then Some (length h)
                               else next_sibling (h ! i)),
             first_child := (if i = p \<and> last_child (h ! p) = None then Some (length h)
                             else first_child (h ! i)),
             last_child := (if i = p then Some (length h) else last_child (h ! i))\<rparr>"
  using assms
  by (cases "tx"; cases u)
     (auto simp: mmd_add_def upd_def Let_def zero_node_def nth_append nth_list_update
           split: option.splits)

lemma mmd_add_orphan_old:
  "i < length h \<Longrightarrow> fst (mmd_add h None ty ws tx u) ! i = h ! i"
  by (cases "tx"; cases u)
     (auto simp: mmd_add_def upd_def Let_def zero_node_def nth_append nth_list_update
           split: option.splits)

text \<open>The same for \<open>mmd_remove\<close>, when the node's parent and siblings are other nodes of the heap.\<close>

lemma length_mmd_remove [simp]: "length (mmd_remove h n) = length h"
  by (simp add: mmd_remove_def upd_def Let_def split: option.splits)

lemma mmd_remove_orphan: "parent (h ! n) = None \<Longrightarrow> mmd_remove h n = h"
  by (simp add: mmd_remove_def)

lemma mmd_remove_nth:
  assumes "parent (h ! n) = Some p" and "p < length h" and "n < length h" and "i < length h"
    and "\<forall>q. prev_sibling (h ! n) = Some q \<longrightarrow> q < length h \<and> q \<noteq> n"
    and "\<forall>q. next_sibling (h ! n) = Some q \<longrightarrow> q < length h \<and> q \<noteq> n"
  shows "mmd_remove h n ! i =
     (h ! i)\<lparr>parent := (if i = n then None else parent (h ! i)),
             next_sibling := (if i = n then None
                              else if prev_sibling (h ! n) = Some i then next_sibling (h ! n)
                              else next_sibling (h ! i)),
             prev_sibling := (if i = n then None
                              else if next_sibling (h ! n) = Some i then prev_sibling (h ! n)
                              else prev_sibling (h ! i)),
             first_child := (if i = p \<and> prev_sibling (h ! n) = None then next_sibling (h ! n)
                             else first_child (h ! i)),
             last_child := (if i = p \<and> next_sibling (h ! n) = None then prev_sibling (h ! n)
                            else last_child (h ! i))\<rparr>"
  using assms
  by (cases "prev_sibling (h ! n)"; cases "next_sibling (h ! n)")
     (auto simp: mmd_remove_def upd_def Let_def nth_list_update)

text \<open>
  The invariant.  \<open>children h p\<close> is the child list of \<open>p\<close> as a reader of the tree sees it:
  the nodes met from \<open>first_child\<close> along \<open>next_sibling\<close> (at most as many as the heap has
  nodes, so that the function is total on any heap).  \<open>first_of cs d\<close> is the pointer to the
  first node of \<open>cs\<close>, and \<open>d\<close> when there is none; \<open>last_of d cs\<close> likewise for the last.
\<close>

fun next_siblings :: "heap \<Rightarrow> nat \<Rightarrow> nat option \<Rightarrow> nat list" where
  "next_siblings h 0 c = []"
| "next_siblings h (Suc k) None = []"
| "next_siblings h (Suc k) (Some c) = c # next_siblings h k (next_sibling (h ! c))"

definition children :: "heap \<Rightarrow> nat \<Rightarrow> nat list" where
  "children h p = next_siblings h (length h) (first_child (h ! p))"

definition first_of :: "nat list \<Rightarrow> nat option \<Rightarrow> nat option" where
  "first_of cs d = (case cs of [] \<Rightarrow> d | c # _ \<Rightarrow> Some c)"

definition last_of :: "nat option \<Rightarrow> nat list \<Rightarrow> nat option" where
  "last_of d cs = (if cs = [] then d else Some (last cs))"

text \<open>
  \<open>seg h prev cs nxt\<close>: the nodes \<open>cs\<close> are nodes of the heap and are linked in both
  directions in this order, the first one's \<open>prev_sibling\<close> being \<open>prev\<close> and the last
  one's \<open>next_sibling\<close> being \<open>nxt\<close>.
\<close>

fun seg :: "heap \<Rightarrow> nat option \<Rightarrow> nat list \<Rightarrow> nat option \<Rightarrow> bool" where
  "seg h prev [] nxt = True"
| "seg h prev (c # cs) nxt =
    (c < length h \<and> prev_sibling (h ! c) = prev \<and> next_sibling (h ! c) = first_of cs nxt \<and>
     seg h (Some c) cs nxt)"

text \<open>
  \<open>children_ok h p cs\<close>: \<open>cs\<close> is a doubly linked chain that starts and ends with \<open>NULL\<close>,
  \<open>first_child\<close> and \<open>last_child\<close> of \<open>p\<close> are its two ends (both \<open>NULL\<close> when it is
  empty), no node stands in it twice, and its nodes are exactly the nodes whose \<open>parent\<close>
  is \<open>p\<close>.
\<close>

definition children_ok :: "heap \<Rightarrow> nat \<Rightarrow> nat list \<Rightarrow> bool" where
  "children_ok h p cs =
    (seg h None cs None \<and> first_child (h ! p) = first_of cs None \<and>
     last_child (h ! p) = last_of None cs \<and> distinct cs \<and>
     (\<forall>c<length h. (parent (h ! c) = Some p) = (c \<in> set cs)))"

text \<open>
  \<open>tree_ok h\<close>: the child list of every node is consistent in this sense, every \<open>parent\<close>
  pointer is a node of the heap, and a node without a parent has no siblings.
\<close>

definition tree_ok :: "heap \<Rightarrow> bool" where
  "tree_ok h =
    ((\<forall>p<length h. children_ok h p (children h p)) \<and>
     (\<forall>c<length h.
        case parent (h ! c) of
          None \<Rightarrow> prev_sibling (h ! c) = None \<and> next_sibling (h ! c) = None
        | Some p \<Rightarrow> p < length h))"

text \<open>A document and its two paragraphs, as three calls of \<open>mmd_add\<close> build them.\<close>

definition two_paragraphs :: heap where
  "two_paragraphs =
    fst (mmd_add
      (fst (mmd_add
        (fst (mmd_add [] None MMD_TYPE_DOCUMENT False None None))
        (Some 0) MMD_TYPE_PARAGRAPH False None None))
      (Some 0) MMD_TYPE_PARAGRAPH False None None)"

lemma first_of_simps [simp]:
  "first_of [] d = d" "first_of (c # cs) d = Some c"
  "first_of (xs @ ys) d = first_of xs (first_of ys d)"
  by (auto simp: first_of_def split: list.splits)

lemma last_of_simps [simp]:
  "last_of d [] = d" "last_of d (xs @ [x]) = Some x" "last_of d (c # cs) = last_of (Some c) cs"
  "last_of d (xs @ ys) = last_of (last_of d xs) ys"
  by (auto simp: last_of_def)

lemma seg_bound: "seg h prev cs nxt \<Longrightarrow> c \<in> set cs \<Longrightarrow> c < length h"
  by (induction cs arbitrary: prev) auto

lemma seg_append:
  "seg h prev (xs @ ys) nxt = (seg h prev xs (first_of ys nxt) \<and> seg h (last_of prev xs) ys nxt)"
  by (induction xs arbitrary: prev) auto

lemma seg_cong:
  "seg h prev cs nxt \<Longrightarrow> length h \<le> length h' \<Longrightarrow>
   \<forall>c\<in>set cs. prev_sibling (h' ! c) = prev_sibling (h ! c) \<and>
               next_sibling (h' ! c) = next_sibling (h ! c) \<Longrightarrow>
   seg h' prev cs nxt"
  by (induction cs arbitrary: prev) auto

lemma seg_change_last:
  "seg h prev (cs @ [l]) nxt \<Longrightarrow> length h \<le> length h' \<Longrightarrow> l \<notin> set cs \<Longrightarrow>
   \<forall>c\<in>set (cs @ [l]). prev_sibling (h' ! c) = prev_sibling (h ! c) \<Longrightarrow>
   \<forall>c\<in>set cs. next_sibling (h' ! c) = next_sibling (h ! c) \<Longrightarrow>
   next_sibling (h' ! l) = nxt' \<Longrightarrow>
   seg h' prev (cs @ [l]) nxt'"
  by (induction cs arbitrary: prev) auto

lemma seg_change_first:
  "seg h prev (f # cs) nxt \<Longrightarrow> length h \<le> length h' \<Longrightarrow>
   \<forall>c\<in>set cs. prev_sibling (h' ! c) = prev_sibling (h ! c) \<Longrightarrow>
   \<forall>c\<in>set (f # cs). next_sibling (h' ! c) = next_sibling (h ! c) \<Longrightarrow>
   prev_sibling (h' ! f) = prev' \<Longrightarrow>
   seg h' prev' (f # cs) nxt"
  using seg_cong[of h "Some f" cs nxt h'] by auto

text \<open>A consistent child list is the list that \<open>children\<close> reads.\<close>

lemma next_siblings_None [simp]: "next_siblings h k None = []"
  by (cases k) auto

lemma next_siblings_seg:
  "seg h prev cs None \<Longrightarrow> length cs \<le> k \<Longrightarrow> next_siblings h k (first_of cs None) = cs"
proof (induction cs arbitrary: k prev)
  case Nil
  then show ?case by simp
next
  case (Cons c cs)
  then obtain k' where k: "k = Suc k'" by (cases k) auto
  with Cons show ?case by auto
qed

lemma distinct_bounded_length:
  assumes "distinct cs" and "\<forall>c\<in>set cs. c < n"
  shows "length cs \<le> n"
proof -
  have "set cs \<subseteq> {..<n}" using assms(2) by auto
  then have "card (set cs) \<le> card {..<n}" by (intro card_mono) auto
  with assms(1) show ?thesis by (simp add: distinct_card)
qed

lemma children_unique:
  assumes "children_ok h p cs"
  shows "children h p = cs"
proof -
  have sg: "seg h None cs None" and fc: "first_child (h ! p) = first_of cs None"
    and di: "distinct cs"
    using assms by (auto simp: children_ok_def)
  have "length cs \<le> length h"
    using distinct_bounded_length[OF di] seg_bound[OF sg] by blast
  then show ?thesis
    unfolding children_def fc using next_siblings_seg[OF sg] by simp
qed

lemma tree_okI:
  assumes "\<And>p. p < length h \<Longrightarrow> \<exists>cs. children_ok h p cs"
    and "\<And>c. c < length h \<Longrightarrow>
           (case parent (h ! c) of
              None \<Rightarrow> prev_sibling (h ! c) = None \<and> next_sibling (h ! c) = None
            | Some p \<Rightarrow> p < length h)"
  shows "tree_ok h"
proof -
  have "children_ok h p (children h p)" if p: "p < length h" for p
  proof -
    obtain cs where cs: "children_ok h p cs" using assms(1)[OF p] by blast
    then show ?thesis using children_unique[OF cs] by simp
  qed
  then show ?thesis
    unfolding tree_ok_def using assms(2) by blast
qed

lemma tree_ok_children: "tree_ok h \<Longrightarrow> p < length h \<Longrightarrow> children_ok h p (children h p)"
  by (simp add: tree_ok_def)

lemma tree_ok_parent_bound:
  "tree_ok h \<Longrightarrow> c < length h \<Longrightarrow> parent (h ! c) = Some q \<Longrightarrow> q < length h"
  by (auto simp: tree_ok_def split: option.splits)

lemma tree_ok_orphan:
  "tree_ok h \<Longrightarrow> c < length h \<Longrightarrow> parent (h ! c) = None \<Longrightarrow>
   prev_sibling (h ! c) = None \<and> next_sibling (h ! c) = None"
  by (auto simp: tree_ok_def split: option.splits)

lemma children_ok_last_bound:
  "children_ok h p cs \<Longrightarrow> last_child (h ! p) = Some l \<Longrightarrow> l < length h \<and> l \<in> set cs"
  by (cases cs rule: rev_cases) (auto simp: children_ok_def seg_append)

lemma children_ok_parent:
  "children_ok h p cs \<Longrightarrow> c \<in> set cs \<Longrightarrow> c < length h \<and> parent (h ! c) = Some p"
  using seg_bound[of h None cs None c] by (auto simp: children_ok_def)

lemma children_ok_cong:
  assumes cs: "children_ok h q cs" and len: "length h \<le> length h'"
    and sib: "\<forall>c\<in>set cs. prev_sibling (h' ! c) = prev_sibling (h ! c) \<and>
                          next_sibling (h' ! c) = next_sibling (h ! c)"
    and fc: "first_child (h' ! q) = first_child (h ! q)"
    and lc: "last_child (h' ! q) = last_child (h ! q)"
    and pa: "\<forall>c<length h'. (parent (h' ! c) = Some q) = (c \<in> set cs)"
  shows "children_ok h' q cs"
  using cs seg_cong[OF _ len sib] fc lc pa by (simp add: children_ok_def)

text \<open>\<open>mmd_add\<close> appends the new node to the child list of its parent.\<close>

lemma add_child_children:
  assumes ok: "tree_ok h" and p: "p < length h" and cs: "children_ok h p cs"
  shows "children_ok (fst (mmd_add h (Some p) ty ws tx u)) p (cs @ [length h])"
proof -
  define h' where "h' = fst (mmd_add h (Some p) ty ws tx u)"
  have lb: "\<forall>l. last_child (h ! p) = Some l \<longrightarrow> l < length h"
    using children_ok_last_bound[OF cs] by blast
  have old: "h' ! i =
     (h ! i)\<lparr>next_sibling := (if last_child (h ! p) = Some i then Some (length h) else next_sibling (h ! i)),
             first_child := (if i = p \<and> last_child (h ! p) = None then Some (length h) else first_child (h ! i)),
             last_child := (if i = p then Some (length h) else last_child (h ! i))\<rparr>"
    if "i < length h" for i
    unfolding h'_def using mmd_add_old[OF p lb that] .
  have new: "h' ! length h =
     \<lparr>node_type = ty, whitespace = ws, node_text = tx, url = u, parent = Some p,
      first_child = None, last_child = None, prev_sibling = last_child (h ! p),
      next_sibling = None\<rparr>"
    unfolding h'_def using mmd_add_new[of "Some p" h ty ws tx u] p lb by simp
  have len: "length h' = Suc (length h)"
    by (simp add: h'_def)
  have sg: "seg h None cs None" and fc: "first_child (h ! p) = first_of cs None"
    and lc: "last_child (h ! p) = last_of None cs" and di: "distinct cs"
    and pa: "\<forall>c<length h. (parent (h ! c) = Some p) = (c \<in> set cs)"
    using cs by (auto simp: children_ok_def)
  have mem: "c < length h" if "c \<in> set cs" for c
    using seg_bound[OF sg that] .
  have s1: "seg h' None cs (Some (length h))"
  proof (cases cs rule: rev_cases)
    case Nil
    then show ?thesis by simp
  next
    case (snoc ys l)
    have "seg h' None (ys @ [l]) (Some (length h))"
    proof (rule seg_change_last[where h=h and nxt=None])
      show "seg h None (ys @ [l]) None" using sg snoc by simp
      show "length h \<le> length h'" by (simp add: len)
      show "l \<notin> set ys" using di snoc by simp
      show "\<forall>c\<in>set (ys @ [l]). prev_sibling (h' ! c) = prev_sibling (h ! c)"
        using mem snoc by (simp add: old)
      show "\<forall>c\<in>set ys. next_sibling (h' ! c) = next_sibling (h ! c)"
        using mem snoc di lc by (auto simp: old)
      show "next_sibling (h' ! l) = Some (length h)"
        using mem snoc lc by (simp add: old)
    qed
    with snoc show ?thesis by simp
  qed
  have s2: "seg h' (last_of None cs) [length h] None"
    by (simp add: len new lc)
  have a: "seg h' None (cs @ [length h]) None"
    unfolding seg_append using s1 s2 by simp
  have b: "first_child (h' ! p) = first_of (cs @ [length h]) None"
    using p fc lc by (cases cs) (auto simp: old last_of_def)
  have c: "last_child (h' ! p) = last_of None (cs @ [length h])"
    using p by (simp add: old)
  have d: "distinct (cs @ [length h])"
    using di mem by auto
  have e: "\<forall>c<length h'. (parent (h' ! c) = Some p) = (c \<in> set (cs @ [length h]))"
  proof (intro allI impI)
    fix c assume "c < length h'"
    then consider "c < length h" | "c = length h"
      using len by linarith
    then show "(parent (h' ! c) = Some p) = (c \<in> set (cs @ [length h]))"
    proof cases
      case 1
      with pa show ?thesis by (auto simp: old)
    next
      case 2
      then show ?thesis by (simp add: new)
    qed
  qed
  show ?thesis
    unfolding children_ok_def h'_def[symmetric] using a b c d e by blast
qed

text \<open>The invariant holds after \<open>mmd_add\<close>, without a parent and with one.\<close>

lemma add_orphan_tree_ok:
  assumes ok: "tree_ok h"
  shows "tree_ok (fst (mmd_add h None ty ws tx u))"
proof -
  define h' where "h' = fst (mmd_add h None ty ws tx u)"
  have old: "h' ! i = h ! i" if "i < length h" for i
    unfolding h'_def using mmd_add_orphan_old[OF that] .
  have new: "h' ! length h =
     \<lparr>node_type = ty, whitespace = ws, node_text = tx, url = u, parent = None,
      first_child = None, last_child = None, prev_sibling = None, next_sibling = None\<rparr>"
    unfolding h'_def using mmd_add_new[of None h ty ws tx u] by simp
  have len: "length h' = Suc (length h)"
    by (simp add: h'_def)
  have a: "\<exists>cs. children_ok h' q cs" if q: "q < length h'" for q
  proof (cases "q < length h")
    case True
    then obtain cs where cs: "children_ok h q cs"
      using tree_ok_children[OF ok] by blast
    have mem: "\<forall>c\<in>set cs. c < length h"
      using children_ok_parent[OF cs] by blast
    have "children_ok h' q cs"
    proof (rule children_ok_cong[OF cs])
      show "length h \<le> length h'" by (simp add: len)
      show "\<forall>c\<in>set cs. prev_sibling (h' ! c) = prev_sibling (h ! c) \<and>
                          next_sibling (h' ! c) = next_sibling (h ! c)"
        using mem by (simp add: old)
      show "first_child (h' ! q) = first_child (h ! q)" using True by (simp add: old)
      show "last_child (h' ! q) = last_child (h ! q)" using True by (simp add: old)
      show "\<forall>c<length h'. (parent (h' ! c) = Some q) = (c \<in> set cs)"
      proof (intro allI impI)
        fix c assume "c < length h'"
        then consider "c < length h" | "c = length h" using len by linarith
        then show "(parent (h' ! c) = Some q) = (c \<in> set cs)"
        proof cases
          case 1
          with cs show ?thesis by (simp add: old children_ok_def)
        next
          case 2
          with mem show ?thesis by (auto simp: new)
        qed
      qed
    qed
    then show ?thesis ..
  next
    case False
    with q len have qe: "q = length h" by linarith
    have "\<forall>c<length h'. parent (h' ! c) \<noteq> Some q"
    proof (intro allI impI)
      fix c assume "c < length h'"
      then consider "c < length h" | "c = length h" using len by linarith
      then show "parent (h' ! c) \<noteq> Some q"
      proof cases
        case 1
        then show ?thesis using tree_ok_parent_bound[OF ok 1] qe by (auto simp: old)
      next
        case 2
        then show ?thesis by (simp add: new)
      qed
    qed
    then have "children_ok h' q []"
      by (simp add: children_ok_def qe new)
    then show ?thesis ..
  qed
  have b: "case parent (h' ! c) of
             None \<Rightarrow> prev_sibling (h' ! c) = None \<and> next_sibling (h' ! c) = None
           | Some p \<Rightarrow> p < length h'" if "c < length h'" for c
  proof -
    from that consider "c < length h" | "c = length h" using len by linarith
    then show ?thesis
    proof cases
      case 1
      then show ?thesis
        using tree_ok_parent_bound[OF ok 1] tree_ok_orphan[OF ok 1]
        by (auto simp: old len split: option.splits)
    next
      case 2
      then show ?thesis by (simp add: new)
    qed
  qed
  show ?thesis
    unfolding h'_def[symmetric] using tree_okI[of h', OF a b] .
qed

lemma add_child_tree_ok:
  assumes ok: "tree_ok h" and p: "p < length h"
  shows "tree_ok (fst (mmd_add h (Some p) ty ws tx u))"
proof -
  define h' where "h' = fst (mmd_add h (Some p) ty ws tx u)"
  obtain ps where ps: "children_ok h p ps"
    using tree_ok_children[OF ok p] by blast
  have lb: "\<forall>l. last_child (h ! p) = Some l \<longrightarrow> l < length h"
    using children_ok_last_bound[OF ps] by blast
  have lp: "\<forall>l. last_child (h ! p) = Some l \<longrightarrow> parent (h ! l) = Some p"
    using children_ok_last_bound[OF ps] children_ok_parent[OF ps] by blast
  have old: "h' ! i =
     (h ! i)\<lparr>next_sibling := (if last_child (h ! p) = Some i then Some (length h) else next_sibling (h ! i)),
             first_child := (if i = p \<and> last_child (h ! p) = None then Some (length h) else first_child (h ! i)),
             last_child := (if i = p then Some (length h) else last_child (h ! i))\<rparr>"
    if "i < length h" for i
    unfolding h'_def using mmd_add_old[OF p lb that] .
  have new: "h' ! length h =
     \<lparr>node_type = ty, whitespace = ws, node_text = tx, url = u, parent = Some p,
      first_child = None, last_child = None, prev_sibling = last_child (h ! p),
      next_sibling = None\<rparr>"
    unfolding h'_def using mmd_add_new[of "Some p" h ty ws tx u] p lb by simp
  have len: "length h' = Suc (length h)"
    by (simp add: h'_def)
  have a: "\<exists>cs. children_ok h' q cs" if q: "q < length h'" for q
  proof -
    consider "q = p" | "q = length h" | "q < length h" "q \<noteq> p"
      using q len by linarith
    then show ?thesis
    proof cases
      case 1
      then show ?thesis
        using add_child_children[OF ok p ps, of ty ws tx u] unfolding h'_def by blast
    next
      case 2
      have "\<forall>c<length h'. parent (h' ! c) \<noteq> Some q"
      proof (intro allI impI)
        fix c assume "c < length h'"
        then consider "c < length h" | "c = length h" using len by linarith
        then show "parent (h' ! c) \<noteq> Some q"
        proof cases
          case 1
          then show ?thesis using tree_ok_parent_bound[OF ok 1] 2 by (auto simp: old)
        next
          case 2
          then show ?thesis using p \<open>q = length h\<close> by (simp add: new)
        qed
      qed
      then have "children_ok h' q []"
        by (simp add: children_ok_def 2 new)
      then show ?thesis ..
    next
      case 3
      then obtain cs where cs: "children_ok h q cs"
        using tree_ok_children[OF ok] by blast
      have mem: "\<forall>c\<in>set cs. c < length h \<and> parent (h ! c) = Some q"
        using children_ok_parent[OF cs] by blast
      have "children_ok h' q cs"
      proof (rule children_ok_cong[OF cs])
        show "length h \<le> length h'" by (simp add: len)
        show "\<forall>c\<in>set cs. prev_sibling (h' ! c) = prev_sibling (h ! c) \<and>
                            next_sibling (h' ! c) = next_sibling (h ! c)"
          using mem lp 3 by (auto simp: old)
        show "first_child (h' ! q) = first_child (h ! q)" using 3 by (simp add: old)
        show "last_child (h' ! q) = last_child (h ! q)" using 3 by (simp add: old)
        show "\<forall>c<length h'. (parent (h' ! c) = Some q) = (c \<in> set cs)"
        proof (intro allI impI)
          fix c assume "c < length h'"
          then consider "c < length h" | "c = length h" using len by linarith
          then show "(parent (h' ! c) = Some q) = (c \<in> set cs)"
          proof cases
            case 1
            with cs show ?thesis by (simp add: old children_ok_def)
          next
            case 2
            with mem 3 show ?thesis by (auto simp: new)
          qed
        qed
      qed
      then show ?thesis ..
    qed
  qed
  have b: "case parent (h' ! c) of
             None \<Rightarrow> prev_sibling (h' ! c) = None \<and> next_sibling (h' ! c) = None
           | Some p \<Rightarrow> p < length h'" if "c < length h'" for c
  proof -
    from that consider "c < length h" | "c = length h" using len by linarith
    then show ?thesis
    proof cases
      case 1
      then show ?thesis
        using tree_ok_parent_bound[OF ok 1] tree_ok_orphan[OF ok 1] lp
        by (auto simp: old len split: option.splits)
    next
      case 2
      then show ?thesis using p by (simp add: new len)
    qed
  qed
  show ?thesis
    unfolding h'_def[symmetric] using tree_okI[of h', OF a b] .
qed

text \<open>
  \<open>mmd_remove\<close> takes the node out of the child list of its parent, changes no other child
  list and no link of a node without a parent, and clears the three pointers of the node.
\<close>

lemma remove_child_children:
  assumes ok: "tree_ok h" and n: "n < length h" and pn: "parent (h ! n) = Some p"
    and cs: "children_ok h p cs"
  shows "children_ok (mmd_remove h n) p (remove1 n cs) \<and>
         (\<forall>q<length h. q \<noteq> p \<longrightarrow> (\<forall>qs. children_ok h q qs \<longrightarrow> children_ok (mmd_remove h n) q qs)) \<and>
         (\<forall>c<length h. c \<noteq> n \<longrightarrow> parent (h ! c) = None \<longrightarrow>
            prev_sibling (mmd_remove h n ! c) = prev_sibling (h ! c) \<and>
            next_sibling (mmd_remove h n ! c) = next_sibling (h ! c)) \<and>
         (\<forall>c<length h. parent (mmd_remove h n ! c) = (if c = n then None else parent (h ! c))) \<and>
         prev_sibling (mmd_remove h n ! n) = None \<and> next_sibling (mmd_remove h n ! n) = None"
proof -
  define h' where "h' = mmd_remove h n"
  have p: "p < length h"
    using tree_ok_parent_bound[OF ok n pn] .
  have sg: "seg h None cs None" and fc: "first_child (h ! p) = first_of cs None"
    and lc: "last_child (h ! p) = last_of None cs" and di: "distinct cs"
    and pa: "\<forall>c<length h. (parent (h ! c) = Some p) = (c \<in> set cs)"
    using cs by (auto simp: children_ok_def)
  have "n \<in> set cs" using pa n pn by simp
  then obtain as bs where split: "cs = as @ n # bs"
    by (meson split_list)
  have nas: "n \<notin> set as" and nbs: "n \<notin> set bs" and dab: "distinct (as @ bs)"
    and disj: "set as \<inter> set bs = {}"
    using di split by auto
  have mem: "c < length h \<and> parent (h ! c) = Some p" if "c \<in> set cs" for c
    using children_ok_parent[OF cs that] .
  have sa: "seg h None as (Some n)" and pv: "prev_sibling (h ! n) = last_of None as"
    and nx: "next_sibling (h ! n) = first_of bs None" and sb: "seg h (Some n) bs None"
    using sg unfolding split by (auto simp: seg_append)
  have pvm: "\<forall>q. prev_sibling (h ! n) = Some q \<longrightarrow> q \<in> set as"
    unfolding pv by (cases as rule: rev_cases) auto
  have nxm: "\<forall>q. next_sibling (h ! n) = Some q \<longrightarrow> q \<in> set bs"
    unfolding nx by (cases bs) auto
  have pvb: "\<forall>q. prev_sibling (h ! n) = Some q \<longrightarrow> q < length h \<and> q \<noteq> n"
    using pvm nas mem split by auto
  have nxb: "\<forall>q. next_sibling (h ! n) = Some q \<longrightarrow> q < length h \<and> q \<noteq> n"
    using nxm nbs mem split by auto
  have nth: "h' ! i =
     (h ! i)\<lparr>parent := (if i = n then None else parent (h ! i)),
             next_sibling := (if i = n then None
                              else if prev_sibling (h ! n) = Some i then next_sibling (h ! n)
                              else next_sibling (h ! i)),
             prev_sibling := (if i = n then None
                              else if next_sibling (h ! n) = Some i then prev_sibling (h ! n)
                              else prev_sibling (h ! i)),
             first_child := (if i = p \<and> prev_sibling (h ! n) = None then next_sibling (h ! n)
                             else first_child (h ! i)),
             last_child := (if i = p \<and> next_sibling (h ! n) = None then prev_sibling (h ! n)
                            else last_child (h ! i))\<rparr>"
    if "i < length h" for i
    unfolding h'_def using mmd_remove_nth[OF pn p n that pvb nxb] .
  have len: "length h' = length h"
    by (simp add: h'_def)
  have prev_same: "prev_sibling (h' ! c) = prev_sibling (h ! c)"
    if "c < length h" "c \<noteq> n" "c \<notin> set bs" for c
    using that nxm by (auto simp: nth)
  have next_same: "next_sibling (h' ! c) = next_sibling (h ! c)"
    if "c < length h" "c \<noteq> n" "c \<notin> set as" for c
    using that pvm by (auto simp: nth)
  have ma: "c < length h \<and> c \<noteq> n \<and> c \<notin> set bs" if "c \<in> set as" for c
    using that mem[of c] nas disj split by auto
  have mb: "c < length h \<and> c \<noteq> n \<and> c \<notin> set as" if "c \<in> set bs" for c
    using that mem[of c] nbs disj split by auto
  have s1: "seg h' None as (first_of bs None)"
  proof (cases as rule: rev_cases)
    case Nil
    then show ?thesis by simp
  next
    case (snoc ys l)
    have dl: "l \<notin> set ys" using dab snoc by simp
    have "seg h' None (ys @ [l]) (first_of bs None)"
    proof (rule seg_change_last[where h=h and nxt="Some n"])
      show "seg h None (ys @ [l]) (Some n)" using sa snoc by simp
      show "length h \<le> length h'" by (simp add: len)
      show "l \<notin> set ys" by (rule dl)
      show "\<forall>c\<in>set (ys @ [l]). prev_sibling (h' ! c) = prev_sibling (h ! c)"
        using ma prev_same snoc by simp
      show "\<forall>c\<in>set ys. next_sibling (h' ! c) = next_sibling (h ! c)"
      proof
        fix c assume c: "c \<in> set ys"
        then have "c \<in> set as" using snoc by simp
        then have "c < length h" "c \<noteq> n" using ma by auto
        moreover have "prev_sibling (h ! n) \<noteq> Some c"
          using pv snoc dl c by auto
        ultimately show "next_sibling (h' ! c) = next_sibling (h ! c)"
          by (simp add: nth)
      qed
      have "l < length h" "l \<noteq> n" using ma[of l] snoc by auto
      then show "next_sibling (h' ! l) = first_of bs None"
        using pv nx snoc by (simp add: nth)
    qed
    with snoc show ?thesis by simp
  qed
  have s2: "seg h' (last_of None as) bs None"
  proof (cases bs)
    case Nil
    then show ?thesis by simp
  next
    case (Cons f zs)
    have df: "f \<notin> set zs" using dab Cons by simp
    have "seg h' (last_of None as) (f # zs) None"
    proof (rule seg_change_first[where h=h and prev="Some n"])
      show "seg h (Some n) (f # zs) None" using sb Cons by simp
      show "length h \<le> length h'" by (simp add: len)
      show "\<forall>c\<in>set (f # zs). next_sibling (h' ! c) = next_sibling (h ! c)"
        using mb next_same Cons by simp
      show "\<forall>c\<in>set zs. prev_sibling (h' ! c) = prev_sibling (h ! c)"
      proof
        fix c assume c: "c \<in> set zs"
        then have "c \<in> set bs" using Cons by simp
        then have "c < length h" "c \<noteq> n" using mb by auto
        moreover have "next_sibling (h ! n) \<noteq> Some c"
          using nx Cons df c by auto
        ultimately show "prev_sibling (h' ! c) = prev_sibling (h ! c)"
          by (simp add: nth)
      qed
      have "f < length h" "f \<noteq> n" using mb[of f] Cons by auto
      then show "prev_sibling (h' ! f) = last_of None as"
        using pv nx Cons by (simp add: nth)
    qed
    with Cons show ?thesis by simp
  qed
  have a: "seg h' None (as @ bs) None"
    unfolding seg_append using s1 s2 by simp
  have pv_empty: "(prev_sibling (h ! n) = None) = (as = [])"
    unfolding pv by (cases as rule: rev_cases) auto
  have nx_empty: "(next_sibling (h ! n) = None) = (bs = [])"
    unfolding nx by (cases bs) auto
  have b: "first_child (h' ! p) = first_of (as @ bs) None"
    using p fc nx pv_empty unfolding split by (cases as) (auto simp: nth)
  have c: "last_child (h' ! p) = last_of None (as @ bs)"
    using p lc pv nx_empty unfolding split by (cases bs rule: rev_cases) (auto simp: nth)
  have par: "parent (h' ! c) = (if c = n then None else parent (h ! c))" if "c < length h" for c
    using that by (simp add: nth)
  have e: "\<forall>c<length h'. (parent (h' ! c) = Some p) = (c \<in> set (as @ bs))"
    using pa nas nbs unfolding len split by (auto simp: par)
  have r: "remove1 n cs = as @ bs"
    unfolding split using nas by (simp add: remove1_append)
  have A: "children_ok h' p (remove1 n cs)"
    unfolding r children_ok_def using a b c dab e by blast
  have B: "children_ok h' q qs" if q: "q < length h" "q \<noteq> p" and qs: "children_ok h q qs" for q qs
  proof (rule children_ok_cong[OF qs])
    have memq: "c < length h \<and> parent (h ! c) = Some q" if "c \<in> set qs" for c
      using children_ok_parent[OF qs that] .
    have notp: "c \<notin> set cs" if "c \<in> set qs" for c
      using memq[OF that] mem[of c] q by auto
    show "length h \<le> length h'" by (simp add: len)
    show "\<forall>c\<in>set qs. prev_sibling (h' ! c) = prev_sibling (h ! c) \<and>
                        next_sibling (h' ! c) = next_sibling (h ! c)"
    proof
      fix c assume c: "c \<in> set qs"
      have "c < length h" using memq[OF c] by simp
      moreover have "c \<noteq> n" "c \<notin> set as" "c \<notin> set bs"
        using notp[OF c] split by auto
      ultimately show "prev_sibling (h' ! c) = prev_sibling (h ! c) \<and>
                       next_sibling (h' ! c) = next_sibling (h ! c)"
        using prev_same next_same by simp
    qed
    show "first_child (h' ! q) = first_child (h ! q)" using q by (simp add: nth)
    show "last_child (h' ! q) = last_child (h ! q)" using q by (simp add: nth)
    show "\<forall>c<length h'. (parent (h' ! c) = Some q) = (c \<in> set qs)"
      using qs pn q n notp \<open>n \<in> set cs\<close> unfolding len by (auto simp: par children_ok_def)
  qed
  have C: "prev_sibling (h' ! c) = prev_sibling (h ! c) \<and> next_sibling (h' ! c) = next_sibling (h ! c)"
    if "c < length h" "c \<noteq> n" "parent (h ! c) = None" for c
  proof -
    have "c \<notin> set cs" using that pa by auto
    then have "c \<notin> set as" "c \<notin> set bs" using split by auto
    then show ?thesis using prev_same next_same that by simp
  qed
  have D: "prev_sibling (h' ! n) = None \<and> next_sibling (h' ! n) = None"
    using n by (simp add: nth)
  show ?thesis
    unfolding h'_def[symmetric] using A B C D par by blast
qed

lemma remove_tree_ok:
  assumes ok: "tree_ok h" and n: "n < length h"
  shows "tree_ok (mmd_remove h n)"
proof (cases "parent (h ! n)")
  case None
  then show ?thesis using ok by (simp add: mmd_remove_orphan)
next
  case (Some p)
  have p: "p < length h"
    using tree_ok_parent_bound[OF ok n Some] .
  obtain cs where cs: "children_ok h p cs"
    using tree_ok_children[OF ok p] by blast
  note r = remove_child_children[OF ok n Some cs]
  have a: "\<exists>qs. children_ok (mmd_remove h n) q qs" if q: "q < length h" for q
  proof (cases "q = p")
    case True
    then show ?thesis using r by blast
  next
    case False
    obtain qs where "children_ok h q qs"
      using tree_ok_children[OF ok q] by blast
    then show ?thesis using r q False by blast
  qed
  have b: "case parent (mmd_remove h n ! c) of
             None \<Rightarrow> prev_sibling (mmd_remove h n ! c) = None \<and> next_sibling (mmd_remove h n ! c) = None
           | Some p \<Rightarrow> p < length (mmd_remove h n)" if c: "c < length h" for c
  proof (cases "c = n")
    case True
    then show ?thesis using r c by simp
  next
    case False
    have pc: "parent (mmd_remove h n ! c) = parent (h ! c)"
      using r c False by simp
    show ?thesis
    proof (cases "parent (h ! c)")
      case None
      then show ?thesis
        using r c False tree_ok_orphan[OF ok c None] by (simp add: pc)
    next
      case (Some q)
      then show ?thesis
        using tree_ok_parent_bound[OF ok c Some] by (simp add: pc)
    qed
  qed
  show ?thesis
  proof (rule tree_okI)
    fix q assume "q < length (mmd_remove h n)"
    then show "\<exists>cs. children_ok (mmd_remove h n) q cs" using a by simp
  next
    fix c assume "c < length (mmd_remove h n)"
    then show "case parent (mmd_remove h n ! c) of
             None \<Rightarrow> prev_sibling (mmd_remove h n ! c) = None \<and> next_sibling (mmd_remove h n ! c) = None
           | Some p \<Rightarrow> p < length (mmd_remove h n)" using b by simp
  qed
qed

text \<open>The heap without nodes, from which \<open>mmdLoadFile\<close> starts, is consistent.\<close>

lemma tree_ok_empty: "tree_ok []"
  by (simp add: tree_ok_def)

text \<open>
  C9.  The links of the tree stay consistent under \<open>mmd_add\<close> and \<open>mmd_remove\<close>.  On a
  heap where, for every node, the chain from \<open>first_child\<close> along \<open>next_sibling\<close> ends at
  \<open>last_child\<close>, \<open>prev_sibling\<close> inverts \<open>next_sibling\<close> along it, and its nodes are
  exactly the nodes with this parent (and where a node without a parent has no siblings):
  after \<open>mmd_add\<close>, without a parent or with a parent that is a node of the heap, the same
  holds and the new node is the last child of the parent, behind the children the parent
  had; after \<open>mmd_remove\<close> of a node of the heap the same holds, the \<open>parent\<close>,
  \<open>prev_sibling\<close> and \<open>next_sibling\<close> of the node are \<open>NULL\<close>, and the children of its
  former parent are the ones it had without the node.
\<close>

theorem tree_links_preserved:
  assumes "tree_ok h"
  shows "((par = None \<or> (\<exists>p<length h. par = Some p)) \<longrightarrow>
            tree_ok (fst (mmd_add h par ty ws tx u)) \<and>
            (\<forall>p. par = Some p \<longrightarrow>
               children (fst (mmd_add h par ty ws tx u)) p =
               children h p @ [snd (mmd_add h par ty ws tx u)])) \<and>
         (n < length h \<longrightarrow>
            tree_ok (mmd_remove h n) \<and>
            parent (mmd_remove h n ! n) = None \<and>
            prev_sibling (mmd_remove h n ! n) = None \<and>
            next_sibling (mmd_remove h n ! n) = None \<and>
            (\<forall>p. parent (h ! n) = Some p \<longrightarrow>
               children (mmd_remove h n) p = remove1 n (children h p)))"
proof (intro conjI impI)
  assume "par = None \<or> (\<exists>p<length h. par = Some p)"
  then show "tree_ok (fst (mmd_add h par ty ws tx u))"
    using add_orphan_tree_ok[OF assms] add_child_tree_ok[OF assms] by auto
next
  assume "par = None \<or> (\<exists>p<length h. par = Some p)"
  show "\<forall>p. par = Some p \<longrightarrow>
          children (fst (mmd_add h par ty ws tx u)) p =
          children h p @ [snd (mmd_add h par ty ws tx u)]"
  proof (intro allI impI)
    fix p assume eq: "par = Some p"
    with \<open>par = None \<or> (\<exists>p<length h. par = Some p)\<close> have p: "p < length h" by auto
    show "children (fst (mmd_add h par ty ws tx u)) p =
          children h p @ [snd (mmd_add h par ty ws tx u)]"
      unfolding eq snd_mmd_add
      by (rule children_unique[OF add_child_children[OF assms p tree_ok_children[OF assms p]]])
  qed
next
  assume n: "n < length h"
  show "tree_ok (mmd_remove h n)"
    by (rule remove_tree_ok[OF assms n])
  show "\<forall>p. parent (h ! n) = Some p \<longrightarrow>
          children (mmd_remove h n) p = remove1 n (children h p)"
  proof (intro allI impI)
    fix p assume pn: "parent (h ! n) = Some p"
    have p: "p < length h" by (rule tree_ok_parent_bound[OF assms n pn])
    show "children (mmd_remove h n) p = remove1 n (children h p)"
      using remove_child_children[OF assms n pn tree_ok_children[OF assms p]]
      by (intro children_unique) simp
  qed
  show "parent (mmd_remove h n ! n) = None"
    "prev_sibling (mmd_remove h n ! n) = None"
    "next_sibling (mmd_remove h n ! n) = None"
  proof (atomize (full), cases "parent (h ! n)")
    case None
    then show "parent (mmd_remove h n ! n) = None \<and>
               prev_sibling (mmd_remove h n ! n) = None \<and>
               next_sibling (mmd_remove h n ! n) = None"
      using tree_ok_orphan[OF assms n None] by (simp add: mmd_remove_orphan)
  next
    case (Some p)
    have p: "p < length h" by (rule tree_ok_parent_bound[OF assms n Some])
    show "parent (mmd_remove h n ! n) = None \<and>
          prev_sibling (mmd_remove h n ! n) = None \<and>
          next_sibling (mmd_remove h n ! n) = None"
      using remove_child_children[OF assms n Some tree_ok_children[OF assms p]] n by simp
  qed
qed

text \<open>
  On the document with two paragraphs: a third paragraph becomes the last child, and
  removing the first paragraph leaves the second as the only child.
\<close>

theorem tree_links_preserved_witness:
  "tree_ok two_paragraphs \<and> children two_paragraphs 0 = [1, 2] \<and>
   tree_ok (fst (mmd_add two_paragraphs (Some 0) MMD_TYPE_PARAGRAPH False None None)) \<and>
   children (fst (mmd_add two_paragraphs (Some 0) MMD_TYPE_PARAGRAPH False None None)) 0 =
     [1, 2, 3] \<and>
   tree_ok (mmd_remove two_paragraphs 1) \<and>
   children (mmd_remove two_paragraphs 1) 0 = [2] \<and>
   parent (mmd_remove two_paragraphs 1 ! 1) = None \<and>
   prev_sibling (mmd_remove two_paragraphs 1 ! 1) = None \<and>
   next_sibling (mmd_remove two_paragraphs 1 ! 1) = None"
proof -
  have h: "two_paragraphs =
    [zero_node\<lparr>first_child := Some 1, last_child := Some 2\<rparr>,
     zero_node\<lparr>node_type := MMD_TYPE_PARAGRAPH, parent := Some 0, next_sibling := Some 2\<rparr>,
     zero_node\<lparr>node_type := MMD_TYPE_PARAGRAPH, parent := Some 0, prev_sibling := Some 1\<rparr>]"
    by (simp add: two_paragraphs_def mmd_add_def upd_def zero_node_def Let_def)
  have c: "children two_paragraphs 0 = [1, 2]"
    by (simp add: h children_def zero_node_def numeral_3_eq_3)
  have ok: "tree_ok two_paragraphs"
    by (simp add: h tree_ok_def children_ok_def children_def zero_node_def numeral_3_eq_3
          All_less_Suc)
  have len: "length two_paragraphs = 3" and p: "parent (two_paragraphs ! Suc 0) = Some 0"
    by (simp_all add: h zero_node_def)
  show ?thesis
    using tree_links_preserved[OF ok, where par="Some 0" and n=1 and ty=MMD_TYPE_PARAGRAPH
        and ws=False and tx=None and u=None]
    by (simp add: ok c len p)
qed

end
